theory Spec2Isabelle
  imports Main "HOL-Library.Word"
begin

section \<open>JavaScript values\<close>

text \<open>
  The values a BrickMap stores in metadata and in brick references: JSON values and
  byte buffers. A JavaScript object is an association list in insertion order with
  distinct keys. Numbers are integers; \<open>undefined\<close> is the absence of a
  property (an \<open>option\<close> where a function may return it).
\<close>

datatype jsval =
    VNull
  | VBool bool
  | VNum int
  | VStr string
  | VArr "jsval list"
  | VObj "(string \<times> jsval) list"
  | VBuf "8 word list"

text \<open>JavaScript truthiness, as used by \<open>if (x)\<close> and \<open>!x\<close>.\<close>

fun truthy :: "jsval \<Rightarrow> bool" where
  "truthy VNull = False"
| "truthy (VBool b) = b"
| "truthy (VNum n) = (n \<noteq> 0)"
| "truthy (VStr s) = (s \<noteq> [])"
| "truthy (VArr xs) = True"
| "truthy (VObj ps) = True"
| "truthy (VBuf bs) = True"

text \<open>
  Own properties of an object: \<open>o[k]\<close>, \<open>o[k] = v\<close> (in place when the
  key exists, appended otherwise) and \<open>delete o[k]\<close>.
\<close>

definition prop_get :: "(string \<times> 'v) list \<Rightarrow> string \<Rightarrow> 'v option" where
  "prop_get ps k = map_of ps k"

fun prop_set :: "string \<Rightarrow> 'v \<Rightarrow> (string \<times> 'v) list \<Rightarrow> (string \<times> 'v) list" where
  "prop_set k v [] = [(k, v)]"
| "prop_set k v (p # ps) = (if fst p = k then (k, v) # ps else p # prop_set k v ps)"

definition prop_del :: "string \<Rightarrow> (string \<times> 'v) list \<Rightarrow> (string \<times> 'v) list" where
  "prop_del k ps = filter (\<lambda>p. fst p \<noteq> k) ps"

section \<open>Paths\<close>

text \<open>\<open>path.split('/')\<close> and \<open>segments.join('/')\<close>.\<close>

fun split_path :: "string \<Rightarrow> string list" where
  "split_path [] = [[]]"
| "split_path (c # cs) =
     (if c = CHR ''/'' then [] # split_path cs
      else (case split_path cs of [] \<Rightarrow> [[c]] | s # ss \<Rightarrow> (c # s) # ss))"

fun join_path :: "string list \<Rightarrow> string" where
  "join_path [] = []"
| "join_path [s] = s"
| "join_path (s # ss) = s @ ''/'' @ join_path ss"

definition dirname :: "string \<Rightarrow> string" where
  "dirname path = join_path (butlast (split_path path))"

definition basename :: "string \<Rightarrow> string" where
  "basename path = last (split_path path)"



section \<open>Nodes\<close>

text \<open>
  A node is an object with a \<open>metadata\<close> object and an \<open>items\<close> object, a
  \<open>hashLinks\<close> array, or both (\<open>truncateNode\<close> gives a directory a
  \<open>hashLinks\<close> array as well). An absent field is \<open>None\<close>. The header is
  the root node. A reference to a node object is its location: the item names leading
  to it from the header.
\<close>

datatype node =
  Node (metadata: "(string \<times> jsval) list")
       (items: "(string \<times> node) list option")
       (hashLinks: "jsval list option")

type_synonym loc = "string list"

datatype error =
    EmptyPath
  | NotFound
  | IsFolder
  | InvalidPath
  | MissingFolderName
  | FolderInFile
  | AlreadyExists
  | SourceNotFound
  | TypeError
  | SyntaxError

fun get_at :: "node \<Rightarrow> loc \<Rightarrow> node option" where
  "get_at n [] = Some n"
| "get_at n (k # ks) =
     (case items n of
        None \<Rightarrow> None
      | Some its \<Rightarrow> (case prop_get its k of None \<Rightarrow> None | Some c \<Rightarrow> get_at c ks))"

fun map_at :: "loc \<Rightarrow> (node \<Rightarrow> node) \<Rightarrow> node \<Rightarrow> node" where
  "map_at [] f n = f n"
| "map_at (k # ks) f n =
     (case items n of
        None \<Rightarrow> n
      | Some its \<Rightarrow>
          (case prop_get its k of
             None \<Rightarrow> n
           | Some c \<Rightarrow> Node (metadata n) (Some (prop_set k (map_at ks f c) its)) (hashLinks n)))"

definition set_meta :: "string \<Rightarrow> jsval \<Rightarrow> node \<Rightarrow> node" where
  "set_meta k v n = Node (prop_set k v (metadata n)) (items n) (hashLinks n)"

definition del_meta :: "string \<Rightarrow> node \<Rightarrow> node" where
  "del_meta k n = Node (prop_del k (metadata n)) (items n) (hashLinks n)"

definition set_item :: "string \<Rightarrow> node \<Rightarrow> node \<Rightarrow> node" where
  "set_item k c n =
     Node (metadata n) (Some (prop_set k c (case items n of None \<Rightarrow> [] | Some its \<Rightarrow> its)))
       (hashLinks n)"

definition set_items :: "(string \<times> node) list \<Rightarrow> node \<Rightarrow> node" where
  "set_items its n = Node (metadata n) (Some its) (hashLinks n)"

definition set_hashLinks :: "jsval list \<Rightarrow> node \<Rightarrow> node" where
  "set_hashLinks hl n = Node (metadata n) (items n) (Some hl)"

section \<open>BrickMapMixin\<close>

text \<open>
  \<open>getTimestamp()\<close> reads the clock; every operation takes the reading as its
  argument \<open>ts\<close>. \<open>pskPath.normalize\<close> belongs to the swarmutils package and
  is not part of this repository: every operation that calls it takes the normaliser
  as its argument \<open>nrm\<close>, and the theorems hold for every normaliser that meets
  their hypotheses.
\<close>

definition initialize :: "string \<Rightarrow> node option \<Rightarrow> bool \<Rightarrow> node" where
  "initialize ts header preventTimestamp =
     (case header of
        Some h \<Rightarrow> h
      | None \<Rightarrow>
          if \<not> preventTimestamp then Node [(''createdAt'', VStr ts)] (Some []) None
          else Node [] (Some []) None)"

text \<open>The test \<open>if (this.header.metadata.createdAt)\<close>.\<close>

definition stamping :: "node \<Rightarrow> bool" where
  "stamping hdr =
     (case prop_get (metadata hdr) ''createdAt'' of None \<Rightarrow> False | Some v \<Rightarrow> truthy v)"

definition updateTimeMetadata :: "string \<Rightarrow> loc \<Rightarrow> string \<Rightarrow> node \<Rightarrow> node" where
  "updateTimeMetadata ts target prop hdr =
     (if stamping hdr then map_at target (set_meta prop (VStr ts)) hdr else hdr)"

definition nodeIsDeleted :: "node \<Rightarrow> bool" where
  "nodeIsDeleted n = (prop_get (metadata n) ''deletedAt'' \<noteq> None)"

definition nodeIsDirectory :: "node \<Rightarrow> bool" where
  "nodeIsDirectory n = (items n \<noteq> None)"

text \<open>
  \<open>createFileNode\<close> and \<open>createDirectoryNode\<close> store a new node under
  \<open>parent.items[name]\<close> and stamp its \<open>createdAt\<close>. Their only caller
  has read \<open>parent.items\<close> before, so the store itself does not fail.
\<close>

definition createFileNode :: "string \<Rightarrow> loc \<Rightarrow> string \<Rightarrow> node \<Rightarrow> node" where
  "createFileNode ts parent name hdr =
     updateTimeMetadata ts (parent @ [name]) ''createdAt''
       (map_at parent (set_item name (Node [] None (Some []))) hdr)"

definition createDirectoryNode :: "string \<Rightarrow> loc \<Rightarrow> string \<Rightarrow> node \<Rightarrow> node" where
  "createDirectoryNode ts root name hdr =
     updateTimeMetadata ts (root @ [name]) ''createdAt''
       (map_at root (set_item name (Node [] (Some []) None)) hdr)"

datatype trailing = Child | Parent

text \<open>
  The head of the loop of \<open>createNodesFromPath\<close>:
  \<open>nodeName = pathSegments.shift(); if (nodeName === "") nodeName = pathSegments.shift()\<close>.
  \<open>shift\<close> of an empty array is \<open>undefined\<close>, which as a property name is
  the string \<open>undefined\<close>.
\<close>

fun shift_name :: "string \<Rightarrow> string list \<Rightarrow> string \<times> string list" where
  "shift_name s rest =
     (if s = [] then (case rest of [] \<Rightarrow> (''undefined'', []) | r # rs \<Rightarrow> (r, rs))
      else (s, rest))"

text \<open>
  The loop of \<open>createNodesFromPath\<close>. It returns the parent node and the name of
  the trailing node, or the TypeError of reading \<open>items\<close> of a node that has
  none, with the header as mutated up to there.
\<close>

function cnp_loop ::
  "string \<Rightarrow> string list \<Rightarrow> string \<Rightarrow> loc \<Rightarrow> node \<Rightarrow> (error + loc \<times> string) \<times> node" where
  "cnp_loop ts [] nodeName parentNode hdr = (Inr (parentNode, nodeName), hdr)"
| "cnp_loop ts (s # rest) nodeName0 parentNode hdr =
     (let (nodeName, pathSegments) = shift_name s rest in
      case get_at hdr parentNode of
        None \<Rightarrow> (Inl TypeError, hdr)
      | Some p \<Rightarrow>
         (case items p of
            None \<Rightarrow> (Inl TypeError, hdr)
          | Some its \<Rightarrow>
              let hdr1 = (if prop_get its nodeName \<noteq> None
                          then map_at (parentNode @ [nodeName]) (del_meta ''deletedAt'') hdr
                          else hdr);
                  hdr2 = map_at parentNode (del_meta ''deletedAt'') hdr1
              in if pathSegments = [] then (Inr (parentNode, nodeName), hdr2)
                 else
                   let hdr3 = (if prop_get its nodeName = None
                               then createDirectoryNode ts parentNode nodeName hdr2
                               else hdr2)
                   in cnp_loop ts pathSegments nodeName (parentNode @ [nodeName]) hdr3))"
  by pat_completeness auto
termination
  by (relation "measure (\<lambda>(ts, segs, nm, p, h). length segs)")
     (auto split: if_splits list.splits)

definition createNodesFromPath ::
  "string \<Rightarrow> string \<Rightarrow> trailing \<Rightarrow> node \<Rightarrow> (error + loc) \<times> node" where
  "createNodesFromPath ts path trailingNodeType hdr =
     (case cnp_loop ts (split_path path) ''undefined'' [] hdr of
        (Inl e, h) \<Rightarrow> (Inl e, h)
      | (Inr (parentNode, nodeName), h) \<Rightarrow>
          (case get_at h parentNode of
             None \<Rightarrow> (Inl TypeError, h)
           | Some p \<Rightarrow>
              (case items p of
                 None \<Rightarrow> (Inl TypeError, h)
               | Some its \<Rightarrow>
                   (Inr (parentNode @ [nodeName]),
                    if prop_get its nodeName = None
                    then (if trailingNodeType = Child
                          then createFileNode ts parentNode nodeName h
                          else createDirectoryNode ts parentNode nodeName h)
                    else h))))"

definition deleteNode :: "string \<Rightarrow> loc \<Rightarrow> node \<Rightarrow> node" where
  "deleteNode ts l hdr =
     map_at l (\<lambda>n. if nodeIsDirectory n then set_items [] n else set_hashLinks [] n)
       (updateTimeMetadata ts l ''deletedAt'' hdr)"

definition truncateNode :: "string \<Rightarrow> loc \<Rightarrow> node \<Rightarrow> node" where
  "truncateNode ts l hdr =
     map_at l (\<lambda>n. set_hashLinks [] (if nodeIsDirectory n then set_items [] n else n))
       (updateTimeMetadata ts l ''updatedAt'' (map_at l (del_meta ''deletedAt'') hdr))"

text \<open>
  \<open>navigate\<close> walks the segments from the header and returns the deepest parent
  with its location, or \<open>undefined\<close> (\<open>None\<close>) at the first segment that is not
  an item of the current parent. A segment that names a file does not move the parent.
\<close>

fun navigate_loop :: "string list \<Rightarrow> loc \<Rightarrow> node \<Rightarrow> error + (loc \<times> node) option" where
  "navigate_loop [] l parentNode = Inr (Some (l, parentNode))"
| "navigate_loop (segment # segments) l parentNode =
     (if segment = [] then navigate_loop segments l parentNode
      else
        (case items parentNode of
           None \<Rightarrow> Inl TypeError
         | Some its \<Rightarrow>
            (case prop_get its segment of
               None \<Rightarrow> Inr None
             | Some c \<Rightarrow>
                 if nodeIsDirectory c then navigate_loop segments (l @ [segment]) c
                 else navigate_loop segments l parentNode)))"

definition navigate :: "node \<Rightarrow> string \<Rightarrow> error + (loc \<times> node) option" where
  "navigate hdr toPath = navigate_loop (split_path toPath) [] hdr"

definition getDeepestNode ::
  "(string \<Rightarrow> string) \<Rightarrow> node \<Rightarrow> string \<Rightarrow> error + (loc \<times> node) option" where
  "getDeepestNode nrm hdr path0 =
     (let path = nrm path0 in
      if path = ''/'' then Inr (Some ([], hdr))
      else
        let filename = basename path; dirPath = dirname path in
        case navigate hdr dirPath of
          Inl e \<Rightarrow> Inl e
        | Inr None \<Rightarrow> Inr None
        | Inr (Some (l, parentNode)) \<Rightarrow>
            (case items parentNode of
               None \<Rightarrow> Inl TypeError
             | Some its \<Rightarrow>
                (case prop_get its filename of
                   None \<Rightarrow> Inr None
                 | Some c \<Rightarrow> Inr (Some (l @ [filename], c)))))"

text \<open>
  \<open>delete\<close>: a mutating operation returns the error it threw, if any, and the
  header as it left it.
\<close>

definition delete :: "(string \<Rightarrow> string) \<Rightarrow> string \<Rightarrow> string \<Rightarrow> node \<Rightarrow> error option \<times> node" where
  "delete nrm ts barPath0 hdr =
     (let barPath = nrm barPath0 in
      case getDeepestNode nrm hdr barPath of
        Inl e \<Rightarrow> (Some e, hdr)
      | Inr None \<Rightarrow> (None, hdr)
      | Inr (Some (l, childNode)) \<Rightarrow>
          if nodeIsDeleted childNode then (None, hdr)
          else (None, deleteNode ts l hdr))"

text \<open>
  \<open>isEmpty\<close>: the directory branch negates the array \<open>Object.keys(node.items)\<close>
  itself.
\<close>

definition isEmpty :: "(string \<Rightarrow> string) \<Rightarrow> node \<Rightarrow> string \<Rightarrow> error + bool" where
  "isEmpty nrm hdr filePath =
     (case getDeepestNode nrm hdr filePath of
        Inl e \<Rightarrow> Inl e
      | Inr None \<Rightarrow> Inr True
      | Inr (Some (l, n)) \<Rightarrow>
          (case items n of
             Some its \<Rightarrow> Inr (\<not> truthy (VArr (map (\<lambda>p. VStr (fst p)) its)))
           | None \<Rightarrow>
              (case hashLinks n of
                 None \<Rightarrow> Inl TypeError
               | Some hl \<Rightarrow> Inr (\<not> (length hl \<noteq> 0)))))"

text \<open>
  The descriptor \<open>add\<close> receives. \<open>checkSum\<close> and \<open>hashLink\<close> are
  required; \<open>size\<close> and \<open>encryptionKey\<close> may be absent.
\<close>

record brick =
  checkSum :: jsval
  hashLink :: jsval
  size :: "jsval option"
  encryptionKey :: "jsval option"

definition brickObj :: "brick \<Rightarrow> jsval" where
  "brickObj b =
     VObj ([(''checkSum'', checkSum b), (''hashLink'', hashLink b)]
           @ (case size b of None \<Rightarrow> [] | Some sz \<Rightarrow> if truthy sz then [(''size'', sz)] else [])
           @ (case encryptionKey b of
                None \<Rightarrow> []
              | Some k \<Rightarrow> if truthy k then [(''key'', k)] else []))"

text \<open>
  \<open>appendBrick\<close>: the time stamp is written before \<open>node.hashLinks.push\<close>
  fails on a node without \<open>hashLinks\<close>.
\<close>

definition appendBrick :: "string \<Rightarrow> loc \<Rightarrow> jsval \<Rightarrow> node \<Rightarrow> error option \<times> node" where
  "appendBrick ts l b hdr =
     (let h1 = updateTimeMetadata ts l ''updatedAt'' hdr in
      case get_at h1 l of
        None \<Rightarrow> (Some TypeError, h1)
      | Some n \<Rightarrow>
         (case hashLinks n of
            None \<Rightarrow> (Some TypeError, h1)
          | Some hl \<Rightarrow> (None, map_at l (set_hashLinks (hl @ [b])) h1)))"

text \<open>
  The step \<open>if (filePathNode.metadata.deletedAt) delete filePathNode.metadata.deletedAt\<close>
  of \<open>add\<close> and \<open>getNodeFromPath\<close>.
\<close>

definition clear_deleted :: "loc \<Rightarrow> node \<Rightarrow> node" where
  "clear_deleted l hdr =
     (case get_at hdr l of
        None \<Rightarrow> hdr
      | Some n \<Rightarrow>
         (case prop_get (metadata n) ''deletedAt'' of
            None \<Rightarrow> hdr
          | Some v \<Rightarrow> if truthy v then map_at l (del_meta ''deletedAt'') hdr else hdr))"

definition add ::
  "(string \<Rightarrow> string) \<Rightarrow> string \<Rightarrow> string \<Rightarrow> brick \<Rightarrow> node \<Rightarrow> error option \<times> node" where
  "add nrm ts filePath0 b hdr =
     (let filePath = nrm filePath0 in
      if filePath = [] then (Some EmptyPath, hdr)
      else
        (case createNodesFromPath ts filePath Child hdr of
           (Inl e, h1) \<Rightarrow> (Some e, h1)
         | (Inr l, h1) \<Rightarrow> appendBrick ts l (brickObj b) (clear_deleted l h1)))"

definition getNodeFromPath ::
  "(string \<Rightarrow> string) \<Rightarrow> string \<Rightarrow> string \<Rightarrow> node \<Rightarrow> (error + loc) \<times> node" where
  "getNodeFromPath nrm ts filePath0 hdr =
     (let filePath = nrm filePath0 in
      if filePath = [] then (Inl EmptyPath, hdr)
      else
        (case createNodesFromPath ts filePath Child hdr of
           (Inl e, h1) \<Rightarrow> (Inl e, h1)
         | (Inr l, h1) \<Rightarrow> (Inr l, clear_deleted l h1)))"

text \<open>
  \<open>replaceFirstBrick\<close> and \<open>replaceLastBrick\<close> store the caller's object itself.
\<close>

definition replaceFirstBrick ::
  "(string \<Rightarrow> string) \<Rightarrow> string \<Rightarrow> string \<Rightarrow> jsval \<Rightarrow> node \<Rightarrow> error option \<times> node" where
  "replaceFirstBrick nrm ts filePath b hdr =
     (case getNodeFromPath nrm ts filePath hdr of
        (Inl e, h1) \<Rightarrow> (Some e, h1)
      | (Inr l, h1) \<Rightarrow>
          let h2 = updateTimeMetadata ts l ''updatedAt'' h1 in
          (case get_at h2 l of
             None \<Rightarrow> (Some TypeError, h2)
           | Some n \<Rightarrow>
              (case hashLinks n of
                 None \<Rightarrow> (Some TypeError, h2)
               | Some hl \<Rightarrow>
                   if length hl > 0 then (None, map_at l (set_hashLinks (hl[0 := b])) h2)
                   else (None, h2))))"

definition replaceLastBrick ::
  "(string \<Rightarrow> string) \<Rightarrow> string \<Rightarrow> string \<Rightarrow> jsval \<Rightarrow> node \<Rightarrow> error option \<times> node" where
  "replaceLastBrick nrm ts filePath b hdr =
     (case getNodeFromPath nrm ts filePath hdr of
        (Inl e, h1) \<Rightarrow> (Some e, h1)
      | (Inr l, h1) \<Rightarrow>
          let h2 = updateTimeMetadata ts l ''updatedAt'' h1 in
          (case get_at h2 l of
             None \<Rightarrow> (Some TypeError, h2)
           | Some n \<Rightarrow>
              (case hashLinks n of
                 None \<Rightarrow> (Some TypeError, h2)
               | Some hl \<Rightarrow>
                   if length hl > 0
                   then (None, map_at l (set_hashLinks (hl[length hl - 1 := b])) h2)
                   else (None, h2))))"

definition createNode ::
  "(string \<Rightarrow> string) \<Rightarrow> string \<Rightarrow> string \<Rightarrow> trailing \<Rightarrow> node \<Rightarrow> error option \<times> node" where
  "createNode nrm ts barPath0 trailingNodeType hdr =
     (let barPath = nrm barPath0 in
      if barPath = ''/'' then (Some InvalidPath, hdr)
      else
        let dirName = basename barPath; dirPath = dirname barPath in
        (case getDeepestNode nrm hdr dirPath of
           Inl e \<Rightarrow> (Some e, hdr)
         | Inr parentDir \<Rightarrow>
            if dirName = [] then (Some MissingFolderName, hdr)
            else
              let conflict =
                (case parentDir of
                   None \<Rightarrow> None
                 | Some (l, pd) \<Rightarrow>
                     if dirPath = [] then None
                     else
                       (case items pd of
                          None \<Rightarrow> Some FolderInFile
                        | Some its \<Rightarrow>
                            if prop_get its dirName \<noteq> None \<and> trailingNodeType = Parent
                            then Some AlreadyExists
                            else None))
              in (case conflict of
                    Some e \<Rightarrow> (Some e, hdr)
                  | None \<Rightarrow>
                      (case createNodesFromPath ts barPath trailingNodeType hdr of
                         (Inl e, h1) \<Rightarrow> (Some e, h1)
                       | (Inr l, h1) \<Rightarrow> (None, h1)))))"

definition createFolder ::
  "(string \<Rightarrow> string) \<Rightarrow> string \<Rightarrow> string \<Rightarrow> node \<Rightarrow> error option \<times> node" where
  "createFolder nrm ts barPath hdr = createNode nrm ts barPath Parent hdr"

definition createFile ::
  "(string \<Rightarrow> string) \<Rightarrow> string \<Rightarrow> string \<Rightarrow> node \<Rightarrow> error option \<times> node" where
  "createFile nrm ts barPath hdr = createNode nrm ts barPath Child hdr"

definition getBricksMeta :: "(string \<Rightarrow> string) \<Rightarrow> node \<Rightarrow> string \<Rightarrow> error + jsval list" where
  "getBricksMeta nrm hdr filePath =
     (case getDeepestNode nrm hdr filePath of
        Inl e \<Rightarrow> Inl e
      | Inr None \<Rightarrow> Inl NotFound
      | Inr (Some (l, fileNode)) \<Rightarrow>
          if nodeIsDirectory fileNode then Inl IsFolder
          else if nodeIsDeleted fileNode then Inl NotFound
          else (case hashLinks fileNode of None \<Rightarrow> Inl TypeError | Some hl \<Rightarrow> Inr hl))"

text \<open>
  Reading a property of a value: \<open>null.p\<close> throws, an object answers its own
  property, and any other value has no property of the names used here.
\<close>

fun js_prop :: "jsval \<Rightarrow> string \<Rightarrow> error + jsval option" where
  "js_prop VNull k = Inl TypeError"
| "js_prop (VObj ps) k = Inr (prop_get ps k)"
| "js_prop v k = Inr None"

fun map_err :: "('a \<Rightarrow> error + 'b) \<Rightarrow> 'a list \<Rightarrow> error + 'b list" where
  "map_err f [] = Inr []"
| "map_err f (x # xs) =
     (case f x of
        Inl e \<Rightarrow> Inl e
      | Inr y \<Rightarrow> (case map_err f xs of Inl e \<Rightarrow> Inl e | Inr ys \<Rightarrow> Inr (y # ys)))"

definition getHashList ::
  "(string \<Rightarrow> string) \<Rightarrow> node \<Rightarrow> string \<Rightarrow> error + jsval option list" where
  "getHashList nrm hdr filePath =
     (if filePath = [] then Inl EmptyPath
      else
        (case getDeepestNode nrm hdr filePath of
           Inl e \<Rightarrow> Inl e
         | Inr None \<Rightarrow> Inl NotFound
         | Inr (Some (l, fileNode)) \<Rightarrow>
             if nodeIsDirectory fileNode then Inl IsFolder
             else
               (case hashLinks fileNode of
                  None \<Rightarrow> Inl TypeError
                | Some hl \<Rightarrow> map_err (\<lambda>b. js_prop b ''hashLink'') hl)))"

definition emptyList ::
  "(string \<Rightarrow> string) \<Rightarrow> string \<Rightarrow> string \<Rightarrow> node \<Rightarrow> error option \<times> node" where
  "emptyList nrm ts filePath hdr =
     (case getDeepestNode nrm hdr filePath of
        Inl e \<Rightarrow> (Some e, hdr)
      | Inr None \<Rightarrow> (Some NotFound, hdr)
      | Inr (Some (l, n)) \<Rightarrow> (None, truncateNode ts l hdr))"



text \<open>
  \<open>appendBricksToFile\<close> adds the bricks one by one and stops at the first
  \<open>add\<close> that throws; a single brick is a list of one. \<open>addFileEntry\<close>
  empties a target that \<open>isEmpty\<close> reports as not empty first.
\<close>

fun appendBricksToFile ::
  "(string \<Rightarrow> string) \<Rightarrow> string \<Rightarrow> string \<Rightarrow> brick list \<Rightarrow> node \<Rightarrow> error option \<times> node" where
  "appendBricksToFile nrm ts path [] hdr = (None, hdr)"
| "appendBricksToFile nrm ts path (b # bricks) hdr =
     (case add nrm ts path b hdr of
        (Some e, h1) \<Rightarrow> (Some e, h1)
      | (None, h1) \<Rightarrow> appendBricksToFile nrm ts path bricks h1)"

definition addFileEntry ::
  "(string \<Rightarrow> string) \<Rightarrow> string \<Rightarrow> string \<Rightarrow> brick list \<Rightarrow> node \<Rightarrow> error option \<times> node" where
  "addFileEntry nrm ts path bricks hdr =
     (case isEmpty nrm hdr path of
        Inl e \<Rightarrow> (Some e, hdr)
      | Inr True \<Rightarrow> appendBricksToFile nrm ts path bricks hdr
      | Inr False \<Rightarrow>
          (case emptyList nrm ts path hdr of
             (Some e, h1) \<Rightarrow> (Some e, h1)
           | (None, h1) \<Rightarrow> appendBricksToFile nrm ts path bricks h1))"

section \<open>Copying and metadata\<close>

text \<open>
  Modelled from the spec: \<open>$$.Buffer\<close> is not part of this repository. Its JSON
  form is the binary-buffer encoding, an object with the two fields \<open>type\<close>
  (the marker \<open>$$.Buffer\<close>) and \<open>data\<close> (the byte values), and
  \<open>$$.Buffer.from(data)\<close> decodes a sequence of byte values back into raw bytes.
\<close>

definition buffer_toJSON :: "8 word list \<Rightarrow> jsval" where
  "buffer_toJSON bs =
     VObj [(''type'', VStr ''$$.Buffer''), (''data'', VArr (map (\<lambda>b. VNum (uint b)) bs))]"

fun byte_of :: "jsval \<Rightarrow> 8 word" where
  "byte_of (VNum n) = word_of_int n"
| "byte_of v = 0"

definition buffer_from :: "jsval list \<Rightarrow> 8 word list" where
  "buffer_from xs = map byte_of xs"

text \<open>
  \<open>JSON.stringify\<close> and \<open>JSON.parse\<close> are built in. A JSON text is modelled
  by the document it denotes, a \<open>jsval\<close> without buffers: \<open>to_json v\<close> is
  the document \<open>JSON.stringify(v)\<close> prints, and parsing it without a reviver gives
  the same document back.
\<close>

primrec to_json :: "jsval \<Rightarrow> jsval" where
  "to_json VNull = VNull"
| "to_json (VBool b) = VBool b"
| "to_json (VNum n) = VNum n"
| "to_json (VStr s) = VStr s"
| "to_json (VArr xs) = VArr (map to_json xs)"
| "to_json (VObj ps) = VObj (map (map_prod id to_json) ps)"
| "to_json (VBuf bs) = buffer_toJSON bs"

text \<open>\<open>JSON.parse(JSON.stringify(node))\<close> on a node and on its fields.\<close>

primrec clone_node :: "node \<Rightarrow> node" where
  "clone_node (Node m its hl) =
     Node (map (map_prod id to_json) m)
       (map_option (map (map_prod id clone_node)) its)
       (map_option (map to_json) hl)"

definition copy ::
  "(string \<Rightarrow> string) \<Rightarrow> string \<Rightarrow> string \<Rightarrow> string \<Rightarrow> node \<Rightarrow> error option \<times> node" where
  "copy nrm ts srcPath dstPath hdr =
     (case getDeepestNode nrm hdr srcPath of
        Inl e \<Rightarrow> (Some e, hdr)
      | Inr None \<Rightarrow> (Some SourceNotFound, hdr)
      | Inr (Some (sl, srcNode0)) \<Rightarrow>
         (case createNodesFromPath ts dstPath
                 (if nodeIsDirectory srcNode0 then Parent else Child) hdr of
            (Inl e, h1) \<Rightarrow> (Some e, h1)
          | (Inr dl, h1) \<Rightarrow>
             (case get_at h1 sl of
                None \<Rightarrow> (Some TypeError, h1)
              | Some srcNode \<Rightarrow>
                 (case items srcNode of
                    Some its \<Rightarrow>
                      (None, map_at dl (set_items (map (map_prod id clone_node) its)) h1)
                  | None \<Rightarrow>
                     (case hashLinks srcNode of
                        None \<Rightarrow> (Some SyntaxError, h1)
                      | Some hl \<Rightarrow> (None, map_at dl (set_hashLinks (map to_json hl)) h1))))))"

text \<open>
  \<open>setMetadata\<close> takes an object, as its parameter is declared, and stores a JSON
  copy of it; \<open>updateMetadata\<close> stores one value.
\<close>

definition setMetadata ::
  "(string \<Rightarrow> string) \<Rightarrow> string \<Rightarrow> (string \<times> jsval) list \<Rightarrow> node \<Rightarrow> error option \<times> node" where
  "setMetadata nrm path md hdr =
     (case getDeepestNode nrm hdr path of
        Inl e \<Rightarrow> (Some e, hdr)
      | Inr None \<Rightarrow> (Some NotFound, hdr)
      | Inr (Some (l, n)) \<Rightarrow>
          (None,
           map_at l (\<lambda>n. Node (map (map_prod id to_json) md) (items n) (hashLinks n)) hdr))"

definition updateMetadata ::
  "(string \<Rightarrow> string) \<Rightarrow> string \<Rightarrow> string \<Rightarrow> jsval \<Rightarrow> node \<Rightarrow> error option \<times> node" where
  "updateMetadata nrm path key val hdr =
     (case getDeepestNode nrm hdr path of
        Inl e \<Rightarrow> (Some e, hdr)
      | Inr None \<Rightarrow> (Some NotFound, hdr)
      | Inr (Some (l, n)) \<Rightarrow> (None, map_at l (set_meta key val) hdr))"

section \<open>Key identities\<close>

text \<open>
  A key identity is an object that answers its identifier. \<open>templateKeySSI\<close> is
  \<open>null\<close> (\<open>None\<close>) until \<open>setKeySSI\<close> is called; \<open>brickMeta\<close> is
  \<open>None\<close> when the argument is \<open>undefined\<close>.
\<close>

datatype keySSI = KeySSI (getIdentifier: string)

definition getBrickEncryptionKeySSI :: "keySSI option \<Rightarrow> jsval option \<Rightarrow> error + jsval option" where
  "getBrickEncryptionKeySSI templateKeySSI brickMeta =
     (case brickMeta of
        None \<Rightarrow>
          (case templateKeySSI of
             None \<Rightarrow> Inl TypeError
           | Some k \<Rightarrow> Inr (Some (VStr (getIdentifier k))))
      | Some b \<Rightarrow> js_prop b ''key'')"

section \<open>Serialisation\<close>

text \<open>
  The reviver of \<open>load\<close>. \<open>typeof null\<close> is \<open>object\<close>, so a \<open>null\<close>
  stored under \<open>key\<close> reaches \<open>Object.keys(value)\<close>, which throws. An array or
  a buffer under \<open>key\<close> has no \<open>type\<close> property and is returned as it is.
\<close>

fun is_array :: "jsval option \<Rightarrow> bool" where
  "is_array (Some (VArr xs)) = True"
| "is_array v = False"

fun reviver :: "string \<Rightarrow> jsval \<Rightarrow> error + jsval" where
  "reviver key val =
     (if key \<noteq> ''key'' then Inr val
      else
        (case val of
           VNull \<Rightarrow> Inl TypeError
         | VObj ps \<Rightarrow>
             if length ps \<noteq> 2 then Inr val
             else if prop_get ps ''type'' \<noteq> Some (VStr ''$$.Buffer'')
                     \<or> \<not> is_array (prop_get ps ''data'')
             then Inr val
             else (case prop_get ps ''data'' of
                     Some (VArr xs) \<Rightarrow> Inr (VBuf (buffer_from xs))
                   | _ \<Rightarrow> Inr val)
         | _ \<Rightarrow> Inr val))"

text \<open>
  \<open>JSON.parse(text, reviver)\<close> walks the parsed document bottom up: the members of a
  value are revived before the value is passed to the reviver under its own name, and
  the root is passed under the empty name. The elements of an array are passed under
  their indices, which are never \<open>key\<close>.
\<close>

fun seq_err :: "(error + 'a) list \<Rightarrow> error + 'a list" where
  "seq_err [] = Inr []"
| "seq_err (r # rs) =
     (case r of
        Inl e \<Rightarrow> Inl e
      | Inr y \<Rightarrow> (case seq_err rs of Inl e \<Rightarrow> Inl e | Inr ys \<Rightarrow> Inr (y # ys)))"

definition revive_prop :: "string \<times> (error + jsval) \<Rightarrow> error + string \<times> jsval" where
  "revive_prop kv =
     (case snd kv of
        Inl e \<Rightarrow> Inl e
      | Inr v \<Rightarrow> (case reviver (fst kv) v of Inl e \<Rightarrow> Inl e | Inr v' \<Rightarrow> Inr (fst kv, v')))"

primrec walk :: "jsval \<Rightarrow> error + jsval" where
  "walk VNull = Inr VNull"
| "walk (VBool b) = Inr (VBool b)"
| "walk (VNum n) = Inr (VNum n)"
| "walk (VStr s) = Inr (VStr s)"
| "walk (VArr xs) =
     (case seq_err (map walk xs) of Inl e \<Rightarrow> Inl e | Inr ys \<Rightarrow> Inr (VArr ys))"
| "walk (VObj ps) =
     (case seq_err (map revive_prop (map (map_prod id walk) ps)) of
        Inl e \<Rightarrow> Inl e
      | Inr qs \<Rightarrow> Inr (VObj qs))"
| "walk (VBuf bs) = Inr (VBuf bs)"

definition parse_with_reviver :: "jsval \<Rightarrow> error + jsval" where
  "parse_with_reviver doc = (case walk doc of Inl e \<Rightarrow> Inl e | Inr v \<Rightarrow> reviver [] v)"

text \<open>
  Modelled from the spec: the class \<open>Brick\<close> (\<open>./Brick\<close>) is not among the
  sources. A content-addressed unit carries a key identity and raw bytes, and
  \<open>getRawData\<close> of a unit whose raw data was set answers them. The raw bytes hold a
  JSON text, modelled by its document.
\<close>

record brick_unit =
  unit_keySSI :: "keySSI option"
  unit_rawData :: jsval

definition toBrick :: "keySSI option \<Rightarrow> jsval \<Rightarrow> brick_unit" where
  "toBrick templateKeySSI header =
     \<lparr>unit_keySSI = templateKeySSI, unit_rawData = to_json header\<rparr>"

text \<open>
  \<open>load\<close> reads the header the map was constructed with: a unit, raw bytes or a
  string holding the JSON text, or an object that is taken as it is. To a unit it first
  hands the map's key identity and then the identifier of that identity
  (\<open>this.templateKeySSI.getIdentifier()\<close>), which throws a \<open>TypeError\<close> in a map
  whose key identity was never set; only then does it read the unit's raw data.
\<close>

datatype header_form = FromBrick brick_unit | FromBytes jsval | FromObject jsval

fun load :: "keySSI option \<Rightarrow> header_form \<Rightarrow> error + jsval" where
  "load templateKeySSI (FromBrick b) =
     (case templateKeySSI of
        None \<Rightarrow> Inl TypeError
      | Some k \<Rightarrow>
          parse_with_reviver
            (unit_rawData (b\<lparr>unit_keySSI := Some (KeySSI (getIdentifier k))\<rparr>)))"
| "load templateKeySSI (FromBytes doc) = parse_with_reviver doc"
| "load templateKeySSI (FromObject h) = Inr h"

definition getState :: "jsval \<Rightarrow> jsval" where
  "getState header = to_json header"

text \<open>
  The header of the tree model as the JavaScript object the serialiser sees. The order
  of a node's own fields depends on how the node was made and is fixed here.
\<close>

primrec js_of_node :: "node \<Rightarrow> jsval" where
  "js_of_node (Node m its hl) =
     VObj ([(''metadata'', VObj m)]
           @ (case map_option (map (map_prod id js_of_node)) its of
                None \<Rightarrow> []
              | Some l \<Rightarrow> [(''items'', VObj l)])
           @ (case hl of None \<Rightarrow> [] | Some l \<Rightarrow> [(''hashLinks'', VArr l)]))"

section \<open>Sequences of calls\<close>

text \<open>
  The mutating operations as commands, and a run of them from a header. Each call has
  its own clock reading. A call that throws leaves the header as it was mutated up to
  the throw, and the caller goes on with the next call.
\<close>

datatype op =
    Add string brick
  | AddFileEntry string "brick list"
  | AppendBricksToFile string "brick list"
  | ReplaceFirstBrick string jsval
  | ReplaceLastBrick string jsval
  | Delete string
  | EmptyList string
  | Copy string string
  | CreateFolder string
  | CreateFile string
  | SetMetadata string "(string \<times> jsval) list"
  | UpdateMetadata string string jsval

fun apply_op :: "(string \<Rightarrow> string) \<Rightarrow> string \<Rightarrow> op \<Rightarrow> node \<Rightarrow> error option \<times> node" where
  "apply_op nrm ts (Add p b) h = add nrm ts p b h"
| "apply_op nrm ts (AddFileEntry p bs) h = addFileEntry nrm ts p bs h"
| "apply_op nrm ts (AppendBricksToFile p bs) h = appendBricksToFile nrm ts p bs h"
| "apply_op nrm ts (ReplaceFirstBrick p b) h = replaceFirstBrick nrm ts p b h"
| "apply_op nrm ts (ReplaceLastBrick p b) h = replaceLastBrick nrm ts p b h"
| "apply_op nrm ts (Delete p) h = delete nrm ts p h"
| "apply_op nrm ts (EmptyList p) h = emptyList nrm ts p h"
| "apply_op nrm ts (Copy src dst) h = copy nrm ts src dst h"
| "apply_op nrm ts (CreateFolder p) h = createFolder nrm ts p h"
| "apply_op nrm ts (CreateFile p) h = createFile nrm ts p h"
| "apply_op nrm ts (SetMetadata p md) h = setMetadata nrm p md h"
| "apply_op nrm ts (UpdateMetadata p k v) h = updateMetadata nrm p k v h"

fun run :: "(string \<Rightarrow> string) \<Rightarrow> (string \<times> op) list \<Rightarrow> node \<Rightarrow> node" where
  "run nrm [] h = h"
| "run nrm ((ts, c) # cs) h = run nrm cs (snd (apply_op nrm ts c h))"



text \<open>
  The invariant of tombstones: every node of the tree that has \<open>deletedAt\<close> in its
  metadata has empty content, no items when it is a directory and no brick references
  otherwise.
\<close>

primrec tombstones_empty :: "node \<Rightarrow> bool" where
  "tombstones_empty (Node m its hl) =
     ((prop_get m ''deletedAt'' \<noteq> None \<longrightarrow>
         (case its of
            Some l \<Rightarrow> l = []
          | None \<Rightarrow> (case hl of Some h \<Rightarrow> h = [] | None \<Rightarrow> True)))
      \<and> (case map_option (map (map_prod id tombstones_empty)) its of
           None \<Rightarrow> True
         | Some l \<Rightarrow> list_all snd l))"

section \<open>Auxiliary definitions\<close>

text \<open>
  The node \<open>deleteNode\<close> leaves in place of \<open>n\<close>: \<open>deletedAt\<close> is stamped
  when the header has a truthy \<open>createdAt\<close> (\<open>st\<close>), a directory loses its
  items, and any other node gets an empty \<open>hashLinks\<close>.
\<close>

definition deleted_node :: "bool \<Rightarrow> string \<Rightarrow> node \<Rightarrow> node" where
  "deleted_node st ts n =
     Node (if st then prop_set ''deletedAt'' (VStr ts) (metadata n) else metadata n)
          (if items n = None then None else Some [])
          (if items n = None then Some [] else hashLinks n)"

text \<open>
  The loop of \<open>createNodesFromPath\<close> once more, as a recursion on the subtree of the
  current parent node: it returns the subtree as the loop leaves it and the location of
  the last parent inside it. \<open>st\<close> is the header's \<open>createdAt\<close> test. Lemma
  \<open>cnp_loop_sub\<close> shows that the loop computes exactly this.
\<close>

definition new_dir :: "bool \<Rightarrow> string \<Rightarrow> node" where
  "new_dir st ts = (if st then Node [(''createdAt'', VStr ts)] (Some []) None else Node [] (Some []) None)"

definition new_file :: "bool \<Rightarrow> string \<Rightarrow> node" where
  "new_file st ts = (if st then Node [(''createdAt'', VStr ts)] None (Some []) else Node [] None (Some []))"

definition cnp_child :: "bool \<Rightarrow> string \<Rightarrow> (string \<times> node) list \<Rightarrow> string \<Rightarrow> node" where
  "cnp_child st ts its nodeName =
     (case prop_get its nodeName of
        None \<Rightarrow> new_dir st ts
      | Some c0 \<Rightarrow> del_meta ''deletedAt'' c0)"

definition cnp_parent :: "(string \<times> node) list \<Rightarrow> string \<Rightarrow> node \<Rightarrow> node" where
  "cnp_parent its nodeName p =
     del_meta ''deletedAt''
       (case prop_get its nodeName of
          None \<Rightarrow> p
        | Some c0 \<Rightarrow> set_item nodeName (del_meta ''deletedAt'' c0) p)"

function cnp_sub ::
  "bool \<Rightarrow> string \<Rightarrow> string list \<Rightarrow> string \<Rightarrow> node \<Rightarrow> (error + loc \<times> string) \<times> node" where
  "cnp_sub st ts [] nodeName p = (Inr ([], nodeName), p)"
| "cnp_sub st ts (s # rest) nodeName0 p =
     (let (nodeName, pathSegments) = shift_name s rest in
      case items p of
        None \<Rightarrow> (Inl TypeError, p)
      | Some its \<Rightarrow>
          if pathSegments = [] then (Inr ([], nodeName), cnp_parent its nodeName p)
          else
            (case cnp_sub st ts pathSegments nodeName (cnp_child st ts its nodeName) of
               (r, c') \<Rightarrow>
                 (map_sum id (\<lambda>(l, n). (nodeName # l, n)) r,
                  set_item nodeName c' (cnp_parent its nodeName p))))"
  by pat_completeness auto
termination
  by (relation "measure (\<lambda>(st, ts, segs, nm, p). length segs)")
     (auto split: if_splits list.splits)

text \<open>The node \<open>createNodesFromPath\<close> creates for a missing trailing name.\<close>

definition trailing_node :: "trailing \<Rightarrow> bool \<Rightarrow> string \<Rightarrow> node" where
  "trailing_node tr st ts = (if tr = Child then new_file st ts else new_dir st ts)"

text \<open>
  The headers for which the round trip is stated. \<open>key_safe\<close> is a property of the
  serialised document: every value under a property named \<open>key\<close> is not
  \<open>null\<close>, and if it passes the reviver's test it is the encoding of a sequence of
  bytes. \<open>revived_form\<close> is a property of the header in memory: its buffers all sit
  directly under properties named \<open>key\<close>, and its other values under \<open>key\<close>
  are not \<open>null\<close> and do not pass the reviver's test.
\<close>

fun is_byte :: "jsval \<Rightarrow> bool" where
  "is_byte (VNum n) = (0 \<le> n \<and> n < 256)"
| "is_byte v = False"

fun looks_like_buffer :: "jsval \<Rightarrow> bool" where
  "looks_like_buffer (VObj ps) =
     (length ps = 2 \<and> prop_get ps ''type'' = Some (VStr ''$$.Buffer'')
      \<and> is_array (prop_get ps ''data''))"
| "looks_like_buffer v = False"

fun is_byte_encoding :: "jsval \<Rightarrow> bool" where
  "is_byte_encoding (VObj [(k1, VStr t), (k2, VArr xs)]) =
     (k1 = ''type'' \<and> t = ''$$.Buffer'' \<and> k2 = ''data'' \<and> list_all is_byte xs)"
| "is_byte_encoding v = False"

definition key_value_ok :: "string \<times> jsval \<Rightarrow> bool" where
  "key_value_ok kv =
     (fst kv = ''key'' \<longrightarrow>
        snd kv \<noteq> VNull \<and> (looks_like_buffer (snd kv) \<longrightarrow> is_byte_encoding (snd kv)))"

primrec key_safe :: "jsval \<Rightarrow> bool" where
  "key_safe VNull = True"
| "key_safe (VBool b) = True"
| "key_safe (VNum n) = True"
| "key_safe (VStr s) = True"
| "key_safe (VArr xs) = list_all id (map key_safe xs)"
| "key_safe (VObj ps) = (list_all key_value_ok ps \<and> list_all snd (map (map_prod id key_safe) ps))"
| "key_safe (VBuf bs) = True"

fun is_buffer :: "jsval \<Rightarrow> bool" where
  "is_buffer (VBuf bs) = True"
| "is_buffer v = False"

definition revived_prop :: "string \<times> jsval \<Rightarrow> string \<times> bool \<Rightarrow> bool" where
  "revived_prop kv kr =
     (if fst kv = ''key''
      then is_buffer (snd kv) \<or> (snd kr \<and> snd kv \<noteq> VNull \<and> \<not> looks_like_buffer (snd kv))
      else snd kr)"

primrec revived_form :: "jsval \<Rightarrow> bool" where
  "revived_form VNull = True"
| "revived_form (VBool b) = True"
| "revived_form (VNum n) = True"
| "revived_form (VStr s) = True"
| "revived_form (VArr xs) = list_all id (map revived_form xs)"
| "revived_form (VObj ps) = list_all2 revived_prop ps (map (map_prod id revived_form) ps)"
| "revived_form (VBuf bs) = False"

section \<open>Copying on an explicit store\<close>

text \<open>
  A tree of nodes cannot express that two paths share one object. To examine what
  \<open>copy\<close> shares, its last step
  (\<open>dstNode.items = JSON.parse(JSON.stringify(srcNode.items))\<close>, or the same for
  \<open>hashLinks\<close>) is modelled once more, on a store of objects. An address is an index
  of the store. A node object refers to its metadata object and, where it has them, to
  its \<open>items\<close> object and its \<open>hashLinks\<close> array; an \<open>items\<close> object refers to
  the child nodes and a \<open>hashLinks\<close> array to the brick objects. A metadata object
  and a brick object are cells that hold their value.
\<close>

type_synonym addr = nat

datatype obj =
    ONode addr "addr option" "addr option"
  | OItems "(string \<times> addr) list"
  | OLinks "addr list"
  | OData jsval

type_synonym store = "obj list"

definition cell :: "store \<Rightarrow> addr \<Rightarrow> obj option" where
  "cell h a = (if a < length h then Some (h ! a) else None)"

definition alloc :: "obj \<Rightarrow> store \<Rightarrow> addr \<times> store" where
  "alloc ob h = (length h, h @ [ob])"

text \<open>
  \<open>JSON.stringify\<close> reads the objects reachable from its argument and prints buffers
  through \<open>toJSON\<close>. It throws a \<open>TypeError\<close> on a circular structure: the fuel
  bounds the depth of nodes it descends, and running out of fuel is that error, as is
  an object that is not of the shape the mixin builds. The result is the document, a
  tree.
\<close>

definition stringify_meta :: "store \<Rightarrow> addr \<Rightarrow> (string \<times> jsval) list option" where
  "stringify_meta h a =
     (case cell h a of
        Some (OData (VObj m)) \<Rightarrow> Some (map (map_prod id to_json) m)
      | _ \<Rightarrow> None)"

fun stringify_bricks :: "store \<Rightarrow> addr list \<Rightarrow> jsval list option" where
  "stringify_bricks h [] = Some []"
| "stringify_bricks h (a # as) =
     (case cell h a of
        Some (OData v) \<Rightarrow>
          (case stringify_bricks h as of None \<Rightarrow> None | Some vs \<Rightarrow> Some (to_json v # vs))
      | _ \<Rightarrow> None)"

definition stringify_links :: "store \<Rightarrow> addr \<Rightarrow> jsval list option" where
  "stringify_links h a =
     (case cell h a of Some (OLinks as) \<Rightarrow> stringify_bricks h as | _ \<Rightarrow> None)"

fun stringify_links_opt :: "store \<Rightarrow> addr option \<Rightarrow> jsval list option option" where
  "stringify_links_opt h None = Some None"
| "stringify_links_opt h (Some a) = map_option Some (stringify_links h a)"

fun stringify_node :: "nat \<Rightarrow> store \<Rightarrow> addr \<Rightarrow> node option"
  and stringify_kids ::
    "nat \<Rightarrow> store \<Rightarrow> addr option \<Rightarrow> (string \<times> node) list option option"
  and stringify_items ::
    "nat \<Rightarrow> store \<Rightarrow> (string \<times> addr) list \<Rightarrow> (string \<times> node) list option" where
  "stringify_node 0 h a = None"
| "stringify_node (Suc f) h a =
     (case cell h a of
        Some (ONode m i l) \<Rightarrow>
          (case stringify_meta h m of
             None \<Rightarrow> None
           | Some md \<Rightarrow>
              (case stringify_kids f h i of
                 None \<Rightarrow> None
               | Some its \<Rightarrow>
                  (case stringify_links_opt h l of
                     None \<Rightarrow> None
                   | Some hl \<Rightarrow> Some (Node md its hl))))
      | _ \<Rightarrow> None)"
| "stringify_kids f h None = Some None"
| "stringify_kids f h (Some ia) =
     (case cell h ia of
        Some (OItems kvs) \<Rightarrow> map_option Some (stringify_items f h kvs)
      | _ \<Rightarrow> None)"
| "stringify_items f h [] = Some []"
| "stringify_items f h (kv # kvs) =
     (case stringify_node f h (snd kv) of
        None \<Rightarrow> None
      | Some n \<Rightarrow>
         (case stringify_items f h kvs of
            None \<Rightarrow> None
          | Some r \<Rightarrow> Some ((fst kv, n) # r)))"

text \<open>
  \<open>JSON.parse\<close> builds every object of the document anew: each one is allocated at
  the end of the store.
\<close>

fun parse_bricks :: "jsval list \<Rightarrow> store \<Rightarrow> addr list \<times> store" where
  "parse_bricks [] h = ([], h)"
| "parse_bricks (v # vs) h =
     (case alloc (OData v) h of
        (a, h1) \<Rightarrow> (case parse_bricks vs h1 of (as, h2) \<Rightarrow> (a # as, h2)))"

definition parse_links :: "jsval list \<Rightarrow> store \<Rightarrow> addr \<times> store" where
  "parse_links vs h = (case parse_bricks vs h of (as, h1) \<Rightarrow> alloc (OLinks as) h1)"

fun parse_links_opt :: "jsval list option \<Rightarrow> store \<Rightarrow> addr option \<times> store" where
  "parse_links_opt None h = (None, h)"
| "parse_links_opt (Some vs) h = (case parse_links vs h of (a, h1) \<Rightarrow> (Some a, h1))"

function parse_node :: "node \<Rightarrow> store \<Rightarrow> addr \<times> store"
  and parse_kids :: "(string \<times> node) list option \<Rightarrow> store \<Rightarrow> addr option \<times> store"
  and parse_items :: "(string \<times> node) list \<Rightarrow> store \<Rightarrow> (string \<times> addr) list \<times> store" where
  "parse_node (Node m its hl) h =
     (case alloc (OData (VObj m)) h of
        (ma, h1) \<Rightarrow>
          (case parse_kids its h1 of
             (ia, h2) \<Rightarrow>
               (case parse_links_opt hl h2 of
                  (la, h3) \<Rightarrow> alloc (ONode ma ia la) h3)))"
| "parse_kids None h = (None, h)"
| "parse_kids (Some l) h =
     (case parse_items l h of
        (kvs, h1) \<Rightarrow> (case alloc (OItems kvs) h1 of (a, h2) \<Rightarrow> (Some a, h2)))"
| "parse_items [] h = ([], h)"
| "parse_items (kc # rest) h =
     (case parse_node (snd kc) h of
        (a, h1) \<Rightarrow> (case parse_items rest h1 of (kvs, h2) \<Rightarrow> ((fst kc, a) # kvs, h2)))"
  by pat_completeness auto

termination
  by (relation "measure (case_sum (\<lambda>p. Nat.size (fst p))
          (case_sum (\<lambda>p. size_option (size_list (\<lambda>x. Suc (Nat.size (snd x)))) (fst p))
                    (\<lambda>p. size_list (\<lambda>x. Suc (Nat.size (snd x))) (fst p))))")
     (auto simp: size_prod_simp)

text \<open>
  \<open>copy\<close> from the point where it holds \<open>srcNode\<close> and \<open>dstNode\<close>. It returns
  the address of the new \<open>items\<close> object or \<open>hashLinks\<close> array, and the store in
  which \<open>dstNode\<close> refers to it.
\<close>

definition copy_store :: "nat \<Rightarrow> store \<Rightarrow> addr \<Rightarrow> addr \<Rightarrow> error + addr \<times> store" where
  "copy_store f h srcNode dstNode =
     (case cell h srcNode of
        Some (ONode sm si sl) \<Rightarrow>
          (case cell h dstNode of
             Some (ONode dm di dl) \<Rightarrow>
               (case si of
                  Some ia \<Rightarrow>
                    (case stringify_kids f h (Some ia) of
                       Some (Some its) \<Rightarrow>
                         (case parse_kids (Some its) h of
                            (Some ia', h1) \<Rightarrow>
                               Inr (ia', h1[dstNode := ONode dm (Some ia') dl])
                          | (None, h1) \<Rightarrow> Inl TypeError)
                     | _ \<Rightarrow> Inl TypeError)
                | None \<Rightarrow>
                    (case sl of
                       None \<Rightarrow> Inl SyntaxError
                     | Some la \<Rightarrow>
                         (case stringify_links h la of
                            None \<Rightarrow> Inl TypeError
                          | Some bs \<Rightarrow>
                              (case parse_links bs h of
                                 (la', h1) \<Rightarrow>
                                    Inr (la', h1[dstNode := ONode dm di (Some la')])))))
           | _ \<Rightarrow> Inl TypeError)
      | _ \<Rightarrow> Inl TypeError)"

text \<open>
  The addresses an object refers to, the addresses reachable from one, and the stores
  in which every reference leads to an object.
\<close>

fun refs :: "obj \<Rightarrow> addr set" where
  "refs (ONode m i l) = {m} \<union> set_option i \<union> set_option l"
| "refs (OItems kvs) = snd ` set kvs"
| "refs (OLinks as) = set as"
| "refs (OData v) = {}"

inductive_set reach :: "store \<Rightarrow> addr \<Rightarrow> addr set" for h :: store and a :: addr where
  start: "a \<in> reach h a"
| step: "b \<in> reach h a \<Longrightarrow> cell h b = Some ob \<Longrightarrow> c \<in> refs ob \<Longrightarrow> c \<in> reach h a"




section \<open>Properties\<close>

subsection \<open>Locations and navigation\<close>

lemma prop_get_prop_set: "prop_get (prop_set k v ps) k' = (if k' = k then Some v else prop_get ps k')"
  by (induction ps) (auto simp: prop_get_def)

lemma map_fst_prop_set: "prop_get ps k \<noteq> None \<Longrightarrow> map fst (prop_set k v ps) = map fst ps"
  by (induction ps) (auto simp: prop_get_def)

lemma prop_set_prop_set: "prop_set k v (prop_set k w ps) = prop_set k v ps"
  by (induction ps) auto

lemma get_at_append:
  "get_at n (l1 @ l2) = (case get_at n l1 of None \<Rightarrow> None | Some m \<Rightarrow> get_at m l2)"
  by (induction l1 arbitrary: n) (auto split: option.splits)

lemma map_at_append: "map_at (l1 @ l2) f n = map_at l1 (map_at l2 f) n"
  by (induction l1 arbitrary: n) (auto split: option.splits)

lemma get_at_map_at: "get_at (map_at l f n) l = map_option f (get_at n l)"
  by (induction l arbitrary: n) (auto split: option.splits simp: prop_get_prop_set)

lemma map_at_comp: "map_at l f (map_at l g n) = map_at l (\<lambda>x. f (g x)) n"
  by (induction l arbitrary: n) (auto split: option.splits simp: prop_get_prop_set prop_set_prop_set)

lemma map_at_cong_at: "get_at n l = Some m \<Longrightarrow> f m = g m \<Longrightarrow> map_at l f n = map_at l g n"
  by (induction l arbitrary: n) (auto split: option.splits)

lemma navigate_loop_get_at:
  "navigate_loop segs l p = Inr (Some (l', p')) \<Longrightarrow> \<exists>r. l' = l @ r \<and> get_at p r = Some p'"
proof (induction segs arbitrary: l p)
  case Nil
  then show ?case by simp
next
  case (Cons s segs)
  show ?case
  proof (cases "s = []")
    case True
    with Cons show ?thesis by simp
  next
    case False
    from Cons.prems False obtain its c where
      its: "items p = Some its" and c: "prop_get its s = Some c"
      by (auto split: option.splits)
    show ?thesis
    proof (cases "nodeIsDirectory c")
      case True
      with Cons.prems False its c have "navigate_loop segs (l @ [s]) c = Inr (Some (l', p'))"
        by simp
      from Cons.IH[OF this] obtain r where "l' = (l @ [s]) @ r" "get_at c r = Some p'" by blast
      then have "l' = l @ (s # r) \<and> get_at p (s # r) = Some p'"
        using its c by simp
      then show ?thesis by blast
    next
      case d: False
      with Cons.prems False its c have "navigate_loop segs l p = Inr (Some (l', p'))"
        by simp
      from Cons.IH[OF this] show ?thesis .
    qed
  qed
qed

lemma getDeepestNode_get_at:
  assumes "getDeepestNode nrm hdr p = Inr (Some (l, n))"
  shows "get_at hdr l = Some n"
proof (cases "nrm p = ''/''")
  case True
  with assms show ?thesis by (simp add: getDeepestNode_def)
next
  case False
  from assms False obtain l0 pn its where
    nav: "navigate hdr (dirname (nrm p)) = Inr (Some (l0, pn))" and
    its: "items pn = Some its" and
    c: "prop_get its (basename (nrm p)) = Some n" and
    l: "l = l0 @ [basename (nrm p)]"
    by (auto simp: getDeepestNode_def Let_def split: sum.splits option.splits)
  from nav have "get_at hdr l0 = Some pn"
    using navigate_loop_get_at[of "split_path (dirname (nrm p))" "[]" hdr l0 pn]
    by (auto simp: navigate_def)
  then show ?thesis using its c l by (simp add: get_at_append)
qed

lemma navigate_loop_total:
  "items p \<noteq> None \<Longrightarrow> \<exists>r. navigate_loop segs l p = Inr r"
proof (induction segs arbitrary: l p)
  case Nil
  then show ?case by simp
next
  case (Cons s segs)
  then show ?case by (auto split: option.splits simp: nodeIsDirectory_def)
qed

lemma navigate_loop_dir:
  "items p \<noteq> None \<Longrightarrow> navigate_loop segs l p = Inr (Some (l', p')) \<Longrightarrow> items p' \<noteq> None"
proof (induction segs arbitrary: l p)
  case Nil
  then show ?case by simp
next
  case (Cons s segs)
  then show ?case by (auto split: option.splits if_splits simp: nodeIsDirectory_def)
qed

lemma getDeepestNode_total:
  assumes "items hdr \<noteq> None"
  shows "\<exists>r. getDeepestNode nrm hdr p = Inr r"
proof (cases "nrm p = ''/''")
  case True
  then show ?thesis by (simp add: getDeepestNode_def)
next
  case False
  obtain r where r: "navigate hdr (dirname (nrm p)) = Inr r"
    using navigate_loop_total[OF assms] by (auto simp: navigate_def)
  show ?thesis
  proof (cases r)
    case None
    with r False show ?thesis by (simp add: getDeepestNode_def)
  next
    case (Some a)
    obtain l0 pn where a: "a = (l0, pn)" by (cases a)
    have "items pn \<noteq> None"
      using navigate_loop_dir[OF assms] r Some a by (auto simp: navigate_def)
    with r Some a False show ?thesis
      by (auto simp: getDeepestNode_def Let_def split: option.splits)
  qed
qed



lemma metadata_map_at_Cons: "metadata (map_at (k # ks) f n) = metadata n"
  by (auto split: option.splits)

lemma hashLinks_map_at_Cons: "hashLinks (map_at (k # ks) f n) = hashLinks n"
  by (auto split: option.splits)

lemma stamping_map_at:
  assumes "prop_get (metadata (f hdr)) ''createdAt'' = prop_get (metadata hdr) ''createdAt''"
  shows "stamping (map_at l f hdr) = stamping hdr"
proof (cases l)
  case Nil
  with assms show ?thesis by (simp add: stamping_def)
next
  case (Cons k ks)
  then show ?thesis by (simp add: stamping_def metadata_map_at_Cons del: map_at.simps)
qed




lemma deleteNode_at:
  assumes "get_at hdr l = Some n"
  shows "deleteNode ts l hdr = map_at l (\<lambda>_. deleted_node (stamping hdr) ts n) hdr"
proof (cases "stamping hdr")
  case True
  then have "deleteNode ts l hdr =
      map_at l (\<lambda>x. (\<lambda>n. if nodeIsDirectory n then set_items [] n else set_hashLinks [] n)
                  (set_meta ''deletedAt'' (VStr ts) x)) hdr"
    by (simp add: deleteNode_def updateTimeMetadata_def map_at_comp)
  also have "\<dots> = map_at l (\<lambda>_. deleted_node (stamping hdr) ts n) hdr"
    using True
    by (intro map_at_cong_at[OF assms])
       (simp add: deleted_node_def nodeIsDirectory_def set_items_def set_hashLinks_def set_meta_def)
  finally show ?thesis .
next
  case False
  then have "deleteNode ts l hdr =
      map_at l (\<lambda>n. if nodeIsDirectory n then set_items [] n else set_hashLinks [] n) hdr"
    by (simp add: deleteNode_def updateTimeMetadata_def)
  also have "\<dots> = map_at l (\<lambda>_. deleted_node (stamping hdr) ts n) hdr"
    using False
    by (intro map_at_cong_at[OF assms])
       (simp add: deleted_node_def nodeIsDirectory_def set_items_def set_hashLinks_def)
  finally show ?thesis .
qed




lemma stamping_deleted: 
  assumes "get_at hdr l = Some n"
  shows "stamping (map_at l (\<lambda>_. deleted_node st ts n) hdr) = stamping hdr"
proof (cases l)
  case Nil
  with assms have "n = hdr" by simp
  with Nil show ?thesis
    by (simp add: stamping_def deleted_node_def prop_get_prop_set)
next
  case (Cons k ks)
  then show ?thesis by (simp add: stamping_def metadata_map_at_Cons del: map_at.simps)
qed



subsection \<open>isEmpty\<close>

text \<open>
  C7. \<open>isEmpty\<close> is meant to answer true for a directory without items. On a fresh
  map, after \<open>createFolder("d")\<close>, \<open>isEmpty("d")\<close> answers false: the directory
  branch negates an array, which is always truthy.
\<close>

theorem isEmpty_empty_directory_false:
  "isEmpty id (snd (createFolder id ''T1'' ''d'' (initialize ''T0'' None False))) ''d''
     = Inr False"
  by code_simp

subsection \<open>getHashList after delete\<close>

text \<open>
  C2. After \<open>add("a/b/file.txt", {checkSum: "c1", hashLink: "h1"})\<close> and
  \<open>delete("a/b/file.txt")\<close> on a fresh map, \<open>getHashList("a/b/file.txt")\<close>
  returns the empty list, where \<open>getBricksMeta\<close> on the same path fails with
  NotFound.
\<close>

theorem getHashList_after_delete:
  "getHashList id
     (snd (delete id ''T2'' ''a/b/file.txt''
        (snd (add id ''T1'' ''a/b/file.txt''
           \<lparr>checkSum = VStr ''c1'', hashLink = VStr ''h1'', size = None,
              encryptionKey = None\<rparr>
           (initialize ''T0'' None False)))))
     ''a/b/file.txt'' = Inr []
   \<and> getBricksMeta id
     (snd (delete id ''T2'' ''a/b/file.txt''
        (snd (add id ''T1'' ''a/b/file.txt''
           \<lparr>checkSum = VStr ''c1'', hashLink = VStr ''h1'', size = None,
              encryptionKey = None\<rparr>
           (initialize ''T0'' None False)))))
     ''a/b/file.txt'' = Inl NotFound"
  by code_simp

subsection \<open>getBrickEncryptionKeySSI\<close>

text \<open>
  C9, as the code has it. For a brick reference that is an object, the result is its
  \<open>key\<close> property, \<open>undefined\<close> when it has none; the identifier of the template
  key identity is returned only when no brick reference is supplied.
\<close>

theorem getBrickEncryptionKeySSI_spec:
  "getBrickEncryptionKeySSI t (Some (VObj ps)) = Inr (prop_get ps ''key'')
   \<and> getBrickEncryptionKeySSI (Some k) None = Inr (Some (VStr (getIdentifier k)))"
  by (simp add: getBrickEncryptionKeySSI_def)

text \<open>
  C9 as stated fails: a brick reference without a key does not fall back to the
  template key identity.
\<close>

theorem getBrickEncryptionKeySSI_no_fallback:
  "getBrickEncryptionKeySSI (Some (KeySSI ''tpl''))
      (Some (VObj [(''checkSum'', VStr ''c1''), (''hashLink'', VStr ''h1'')])) = Inr None
   \<and> getBrickEncryptionKeySSI (Some (KeySSI ''tpl''))
      (Some (VObj [(''checkSum'', VStr ''c1''), (''hashLink'', VStr ''h1'')]))
     \<noteq> Inr (Some (VStr ''tpl''))"
  by (simp add: getBrickEncryptionKeySSI_def prop_get_def)

subsection \<open>delete\<close>




subsection \<open>delete on the root\<close>

text \<open>
  C1, as the code has it. \<open>delete\<close> normalises its path and \<open>getDeepestNode\<close>
  normalises it again. When the result is \<open>/\<close> the node found is the header itself:
  an already tombstoned header is left alone, and any other header loses its items and
  gets \<open>deletedAt\<close> when time stamps are on. When the result is the empty string the
  node looked up is the header's item of the empty name, so the header keeps its own
  metadata, the names of its items and its \<open>hashLinks\<close>.
\<close>

theorem delete_root:
  "(nrm (nrm p) = ''/'' \<and> nodeIsDeleted hdr \<longrightarrow> delete nrm ts p hdr = (None, hdr))
   \<and> (nrm (nrm p) = ''/'' \<and> \<not> nodeIsDeleted hdr \<longrightarrow>
        delete nrm ts p hdr =
          (None,
           Node (if stamping hdr then prop_set ''deletedAt'' (VStr ts) (metadata hdr)
                 else metadata hdr)
                (if items hdr = None then None else Some [])
                (if items hdr = None then Some [] else hashLinks hdr)))
   \<and> (nrm (nrm p) = [] \<longrightarrow>
        metadata (snd (delete nrm ts p hdr)) = metadata hdr
        \<and> map_option (map fst) (items (snd (delete nrm ts p hdr))) = map_option (map fst) (items hdr)
        \<and> hashLinks (snd (delete nrm ts p hdr)) = hashLinks hdr)"
proof -
  have A: "delete nrm ts p hdr = (None, hdr)" if "nrm (nrm p) = ''/'' \<and> nodeIsDeleted hdr"
    using that by (simp add: delete_def getDeepestNode_def)
  have "get_at hdr [] = Some hdr" by simp
  from deleteNode_at[OF this]
  have B: "delete nrm ts p hdr =
          (None,
           Node (if stamping hdr then prop_set ''deletedAt'' (VStr ts) (metadata hdr)
                 else metadata hdr)
                (if items hdr = None then None else Some [])
                (if items hdr = None then Some [] else hashLinks hdr))"
    if "nrm (nrm p) = ''/'' \<and> \<not> nodeIsDeleted hdr"
    using that by (simp add: delete_def getDeepestNode_def deleted_node_def)
  have nav: "navigate hdr (dirname []) = Inr (Some ([], hdr))"
    by (simp add: navigate_def dirname_def)
  have bn: "basename [] = []" by (simp add: basename_def)
  have C: "metadata (snd (delete nrm ts p hdr)) = metadata hdr
        \<and> map_option (map fst) (items (snd (delete nrm ts p hdr))) = map_option (map fst) (items hdr)
        \<and> hashLinks (snd (delete nrm ts p hdr)) = hashLinks hdr" if e: "nrm (nrm p) = []"
  proof (cases "items hdr")
    case None
    with e nav bn show ?thesis by (simp add: delete_def getDeepestNode_def)
  next
    case (Some its)
    show ?thesis
    proof (cases "prop_get its []")
      case None
      with Some e nav bn show ?thesis by (simp add: delete_def getDeepestNode_def)
    next
      case c: (Some c)
      have at: "get_at hdr [[]] = Some c" using Some c by simp
      show ?thesis
        using Some c e nav bn deleteNode_at[OF at]
        by (simp add: delete_def getDeepestNode_def map_fst_prop_set)
    qed
  qed
  from A B C show ?thesis by blast
qed

theorem delete_root_witness:
  "delete id ''T2'' ''/''
      (Node [(''createdAt'', VStr ''T0''), (''deletedAt'', VStr ''T1'')] (Some []) None)
     = (None, Node [(''createdAt'', VStr ''T0''), (''deletedAt'', VStr ''T1'')] (Some []) None)
   \<and> delete id ''T2'' ''/''
      (Node [(''createdAt'', VStr ''T0'')] (Some [(''f'', Node [] None (Some []))]) None)
     = (None, Node [(''createdAt'', VStr ''T0''), (''deletedAt'', VStr ''T2'')] (Some []) None)
   \<and> metadata (snd (delete id ''T2'' ''''
        (Node [(''createdAt'', VStr ''T0'')] (Some [(''f'', Node [] None (Some []))]) None)))
     = [(''createdAt'', VStr ''T0'')]
   \<and> map_option (map fst) (items (snd (delete id ''T2'' ''''
        (Node [(''createdAt'', VStr ''T0'')] (Some [(''f'', Node [] None (Some []))]) None))))
     = Some [''f'']"
  using
    delete_root[of id "''/''" "Node [(''createdAt'', VStr ''T0''), (''deletedAt'', VStr ''T1'')] (Some []) None" "''T2''"]
    delete_root[of id "''/''" "Node [(''createdAt'', VStr ''T0'')] (Some [(''f'', Node [] None (Some []))]) None" "''T2''"]
    delete_root[of id "''''" "Node [(''createdAt'', VStr ''T0'')] (Some [(''f'', Node [] None (Some []))]) None" "''T2''"]
  by (simp add: nodeIsDeleted_def prop_get_def stamping_def)

text \<open>
  C1 as stated fails: on a map holding one file, \<open>delete("/")\<close> tombstones the
  header and empties its items.
\<close>

theorem delete_root_tombstones_header:
  "snd (delete id ''T2'' ''/''
     (snd (add id ''T1'' ''f''
        \<lparr>checkSum = VStr ''c1'', hashLink = VStr ''h1'', size = None, encryptionKey = None\<rparr>
        (initialize ''T0'' None False))))
   = Node [(''createdAt'', VStr ''T0''), (''deletedAt'', VStr ''T2'')] (Some []) None
   \<and> items (snd (add id ''T1'' ''f''
        \<lparr>checkSum = VStr ''c1'', hashLink = VStr ''h1'', size = None, encryptionKey = None\<rparr>
        (initialize ''T0'' None False)))
     = Some [(''f'', Node [(''createdAt'', VStr ''T1''), (''updatedAt'', VStr ''T1'')] None
         (Some [VObj [(''checkSum'', VStr ''c1''), (''hashLink'', VStr ''h1'')]]))]"
  by code_simp

subsection \<open>createFolder\<close>





subsection \<open>Path materialisation\<close>

lemma prop_set_same: "prop_get its k = Some c \<Longrightarrow> prop_set k c its = its"
  by (induction its) (auto simp: prop_get_def split: if_splits)

lemma map_at_const_id: "get_at h P = Some p \<Longrightarrow> map_at P (\<lambda>_. p) h = h"
proof (induction P arbitrary: h)
  case Nil
  then show ?case by simp
next
  case (Cons k ks)
  then obtain its c where "items h = Some its" "prop_get its k = Some c" "get_at c ks = Some p"
    by (auto split: option.splits)
  with Cons.IH[of c] show ?case
    by (cases h) (simp add: prop_set_same)
qed

lemma map_at_const: "get_at h P = Some p \<Longrightarrow> map_at P f h = map_at P (\<lambda>_. f p) h"
  by (rule map_at_cong_at) simp_all

lemma map_at_child:
  "items p = Some its \<Longrightarrow> prop_get its k = Some c \<Longrightarrow> map_at [k] f p = set_item k (f c) p"
  by (simp add: set_item_def)

lemma set_item_twice: "set_item k c (set_item k c0 p) = set_item k c p"
  by (simp add: set_item_def prop_set_prop_set)

lemma del_meta_set_item: "del_meta d (set_item k c p) = set_item k c (del_meta d p)"
  by (simp add: del_meta_def set_item_def)

lemma items_del_meta: "items (del_meta d p) = items p"
  by (simp add: del_meta_def)

lemma items_set_item:
  "items (set_item k c p) = Some (prop_set k c (case items p of None \<Rightarrow> [] | Some its \<Rightarrow> its))"
  by (simp add: set_item_def)

lemma stamping_const:
  assumes "get_at h P = Some p"
    and "prop_get (metadata p') ''createdAt'' = prop_get (metadata p) ''createdAt''"
  shows "stamping (map_at P (\<lambda>_. p') h) = stamping h"
proof (cases P)
  case Nil
  with assms show ?thesis by (simp add: stamping_def)
next
  case (Cons k ks)
  then show ?thesis by (simp add: stamping_def metadata_map_at_Cons del: map_at.simps)
qed

lemma prop_get_prop_del: "prop_get (prop_del k ps) k' = (if k' = k then None else prop_get ps k')"
  by (induction ps) (auto simp: prop_get_def prop_del_def)

lemma get_at_const: "get_at h P = Some p \<Longrightarrow> get_at (map_at P (\<lambda>_. p') h) P = Some p'"
  by (simp add: get_at_map_at)

lemma map_at_const_const:
  "map_at P (\<lambda>_. q) (map_at P (\<lambda>_. p') h) = map_at P (\<lambda>_. q) h"
  by (simp add: map_at_comp)

lemma cnp_sub_Nil [simp]: "cnp_sub st ts [] nm p = (Inr ([], nm), p)"
  by simp

lemma cnp_sub_no_items:
  "items p = None \<Longrightarrow> cnp_sub st ts (s # rest) nm0 p = (Inl TypeError, p)"
  by (simp split: prod.splits)

lemma cnp_sub_Cons:
  assumes "shift_name s rest = (nm, segs)" and "items p = Some its"
  shows "cnp_sub st ts (s # rest) nm0 p =
        (if segs = [] then (Inr ([], nm), cnp_parent its nm p)
         else (case cnp_sub st ts segs nm (cnp_child st ts its nm) of
                  (r, c') \<Rightarrow> (map_sum id (\<lambda>(l, n). (nm # l, n)) r,
                               set_item nm c' (cnp_parent its nm p))))"
  using assms by (simp del: shift_name.simps)

lemma cnp_sub_induct [case_names Nil NoItems Step]:
  assumes "\<And>nm p. Q [] nm p"
    and "\<And>s rest nm0 p. items p = None \<Longrightarrow> Q (s # rest) nm0 p"
    and "\<And>s rest nm0 p its nm segs.
           items p = Some its \<Longrightarrow> shift_name s rest = (nm, segs) \<Longrightarrow>
           (segs \<noteq> [] \<Longrightarrow> Q segs nm (cnp_child st ts its nm)) \<Longrightarrow>
           Q (s # rest) nm0 p"
  shows "Q segs nm p"
proof (induction "length segs" arbitrary: segs nm p rule: less_induct)
  case (less segs nm p)
  show ?case
  proof (cases segs)
    case Nil
    then show ?thesis by (simp add: assms(1))
  next
    case (Cons s rest)
    obtain nm' segs' where sh: "shift_name s rest = (nm', segs')"
      by (cases "shift_name s rest")
    then have len: "length segs' < length segs"
      using Cons by (auto split: if_splits list.splits)
    show ?thesis
    proof (cases "items p")
      case None
      then show ?thesis unfolding Cons by (rule assms(2))
    next
      case (Some its)
      show ?thesis
        unfolding Cons
      proof (rule assms(3)[OF Some sh])
        show "Q segs' nm' (cnp_child st ts its nm')"
          by (rule less.hyps[OF len])
      qed
    qed
  qed
qed

lemma cnp_loop_sub:
  assumes "get_at hdr P = Some p" and "st = stamping hdr"
  shows "cnp_loop ts segs nm0 P hdr =
           (case cnp_sub st ts segs nm0 p of
              (r, p') \<Rightarrow> (map_sum id (\<lambda>(l, n). (P @ l, n)) r, map_at P (\<lambda>_. p') hdr))"
  using assms
proof (induction segs nm0 p arbitrary: P hdr rule: cnp_sub_induct[where st=st and ts=ts])
  case (Nil nm p)
  then show ?case by (simp add: map_at_const_id)
next
  case (NoItems s rest nm0 p)
  then show ?case
    by (simp add: map_at_const_id cnp_sub_no_items split: prod.splits del: cnp_sub.simps)
next
  case (Step s rest nodeName0 p its nm segs)
  note at = Step.prems(1)
  note st = Step.prems(2)
  note Some = Step.hyps(1)
  note sh = Step.hyps(2)
  define c where "c = cnp_child st ts its nm"
  define p1 where "p1 = (case prop_get its nm of
                      None \<Rightarrow> p
                    | Some c0 \<Rightarrow> set_item nm (del_meta ''deletedAt'' c0) p)"
  define p2 where "p2 = cnp_parent its nm p"
  define hdr1 where "hdr1 = (if prop_get its nm \<noteq> None
                          then map_at (P @ [nm]) (del_meta ''deletedAt'') hdr
                          else hdr)"
  define hdr2 where "hdr2 = map_at P (del_meta ''deletedAt'') hdr1"
  define hdr3 where "hdr3 = (if prop_get its nm = None
                               then createDirectoryNode ts P nm hdr2
                               else hdr2)"
  have p2: "p2 = del_meta ''deletedAt'' p1" by (simp add: p2_def p1_def cnp_parent_def)
  have h1: "hdr1 = map_at P (\<lambda>_. p1) hdr"
  proof (cases "prop_get its nm")
    case None
    then show ?thesis using at by (simp add: hdr1_def p1_def map_at_const_id)
  next
    case c0: (Some c0)
    have "map_at (P @ [nm]) (del_meta ''deletedAt'') hdr
              = map_at P (\<lambda>_. map_at [nm] (del_meta ''deletedAt'') p) hdr"
      unfolding map_at_append by (rule map_at_const[OF at])
    then show ?thesis using c0 Some
      by (simp add: hdr1_def p1_def set_item_def)
  qed
  have h2: "hdr2 = map_at P (\<lambda>_. p2) hdr"
    by (simp add: hdr2_def h1 map_at_comp p2)
  have meta_p2: "prop_get (metadata p2) ''createdAt'' = prop_get (metadata p) ''createdAt''"
    by (simp add: p2 p1_def del_meta_def set_item_def prop_get_prop_del split: option.splits)
  have h3: "hdr3 = map_at P (\<lambda>_. set_item nm c p2) hdr"
  proof (cases "prop_get its nm")
    case None
    have a: "map_at P (set_item nm (Node [] (Some []) None)) hdr2
                 = map_at P (\<lambda>_. set_item nm (Node [] (Some []) None) p2) hdr"
      by (simp add: h2 map_at_comp)
    have sta: "stamping (map_at P (\<lambda>_. set_item nm (Node [] (Some []) None) p2) hdr) = stamping hdr"
      by (rule stamping_const[OF at]) (simp add: set_item_def meta_p2)
    show ?thesis
    proof (cases "stamping hdr")
      case True
      have "map_at (P @ [nm]) (set_meta ''createdAt'' (VStr ts))
                (map_at P (\<lambda>_. set_item nm (Node [] (Some []) None) p2) hdr)
              = map_at P (\<lambda>_. map_at [nm] (set_meta ''createdAt'' (VStr ts))
                   (set_item nm (Node [] (Some []) None) p2)) hdr"
        by (simp add: map_at_append map_at_comp)
      also have "map_at [nm] (set_meta ''createdAt'' (VStr ts))
                   (set_item nm (Node [] (Some []) None) p2)
                  = set_item nm (Node [(''createdAt'', VStr ts)] (Some []) None) p2"
        by (simp add: set_item_def prop_get_prop_set prop_set_prop_set set_meta_def)
      finally show ?thesis
        using None True st sta
        by (simp add: hdr3_def createDirectoryNode_def updateTimeMetadata_def a c_def
              cnp_child_def new_dir_def)
    next
      case False
      then show ?thesis
        using None st sta
        by (simp add: hdr3_def createDirectoryNode_def updateTimeMetadata_def a c_def
              cnp_child_def new_dir_def)
    qed
  next
    case c0: (Some c0)
    then have "set_item nm c p2 = p2"
      by (simp add: c_def cnp_child_def p2 p1_def del_meta_set_item set_item_twice)
    with c0 show ?thesis by (simp add: hdr3_def h2)
  qed
  have unfold_loop: "cnp_loop ts (s # rest) nodeName0 P hdr =
        (if segs = [] then (Inr (P, nm), hdr2) else cnp_loop ts segs nm (P @ [nm]) hdr3)"
    using sh at Some
    by (simp add: hdr1_def hdr2_def hdr3_def Let_def del: shift_name.simps)
  have unfold_sub: "cnp_sub st ts (s # rest) nodeName0 p =
        (if segs = [] then (Inr ([], nm), p2)
         else (case cnp_sub st ts segs nm c of
                  (r, c') \<Rightarrow> (map_sum id (\<lambda>(l, n). (nm # l, n)) r, set_item nm c' p2)))"
    unfolding c_def p2_def by (rule cnp_sub_Cons[OF sh Some])
  show ?case
  proof (cases "segs = []")
    case True
    then show ?thesis by (simp only: unfold_loop unfold_sub) (simp add: h2)
  next
    case False
    have at3: "get_at hdr3 (P @ [nm]) = Some c"
      unfolding h3 using at
      by (simp add: get_at_append get_at_map_at set_item_def prop_get_prop_set)
    have st3: "st = stamping hdr3"
      unfolding h3 using st stamping_const[OF at, of "set_item nm c p2"] meta_p2
      by (simp add: set_item_def)
    have ih: "cnp_loop ts segs nm (P @ [nm]) hdr3 =
           (case cnp_sub st ts segs nm c of
              (r, p') \<Rightarrow> (map_sum id (\<lambda>(l, n). ((P @ [nm]) @ l, n)) r,
                           map_at (P @ [nm]) (\<lambda>_. p') hdr3))"
      unfolding c_def by (rule Step.IH[OF False at3[unfolded c_def] st3])
    obtain r c' where rc: "cnp_sub st ts segs nm c = (r, c')" by (cases "cnp_sub st ts segs nm c")
    have m: "map_at (P @ [nm]) (\<lambda>_. c') hdr3 = map_at P (\<lambda>_. set_item nm c' p2) hdr"
      unfolding h3
      by (simp add: map_at_append map_at_comp set_item_def prop_get_prop_set prop_set_prop_set)
    show ?thesis
      using False
      by (simp only: unfold_loop unfold_sub ih rc) (cases r; simp add: m split: prod.splits)
  qed
qed

subsection \<open>The invariant of tombstones\<close>

lemma tombstones_empty_iff:
  "tombstones_empty n =
     ((nodeIsDeleted n \<longrightarrow>
         (case items n of
            Some l \<Rightarrow> l = []
          | None \<Rightarrow> (case hashLinks n of Some h \<Rightarrow> h = [] | None \<Rightarrow> True)))
      \<and> (\<forall>its k c. items n = Some its \<longrightarrow> (k, c) \<in> set its \<longrightarrow> tombstones_empty c))"
  by (cases n) (auto simp: nodeIsDeleted_def list_all_iff split: option.splits)

lemma te_child:
  "tombstones_empty n \<Longrightarrow> items n = Some its \<Longrightarrow> prop_get its k = Some c \<Longrightarrow> tombstones_empty c"
  using tombstones_empty_iff[of n] by (auto simp: prop_get_def dest: map_of_SomeD)

lemma te_live_parent:
  "tombstones_empty n \<Longrightarrow> items n = Some its \<Longrightarrow> prop_get its k = Some c \<Longrightarrow> \<not> nodeIsDeleted n"
  using tombstones_empty_iff[of n] by (auto simp: prop_get_def)

lemma set_prop_set: "set (prop_set k v ps) \<subseteq> insert (k, v) (set ps)"
  by (induction ps) auto

lemma nodeIsDeleted_del_meta [simp]: "\<not> nodeIsDeleted (del_meta ''deletedAt'' n)"
  by (simp add: nodeIsDeleted_def del_meta_def prop_get_prop_del)

lemma te_del_meta: "tombstones_empty n \<Longrightarrow> tombstones_empty (del_meta ''deletedAt'' n)"
  unfolding tombstones_empty_iff[of n] tombstones_empty_iff[of "del_meta ''deletedAt'' n"]
  by (simp add: items_del_meta)

lemma te_set_item:
  assumes "tombstones_empty n" "\<not> nodeIsDeleted n" "tombstones_empty c"
  shows "tombstones_empty (set_item k c n)"
proof -
  have "nodeIsDeleted (set_item k c n) = nodeIsDeleted n"
    by (simp add: nodeIsDeleted_def set_item_def)
  moreover have "tombstones_empty c'" if "items (set_item k c n) = Some its" "(k', c') \<in> set its"
    for its k' c'
  proof -
    from that have "(k', c') \<in> insert (k, c) (set (case items n of None \<Rightarrow> [] | Some i \<Rightarrow> i))"
      using set_prop_set by (fastforce simp: set_item_def)
    then show ?thesis
      using assms(1,3) tombstones_empty_iff[of n] by (auto split: option.splits)
  qed
  ultimately show ?thesis
    using assms(2) unfolding tombstones_empty_iff[of "set_item k c n"] by blast
qed






lemma te_get_at: "tombstones_empty h \<Longrightarrow> get_at h l = Some n \<Longrightarrow> tombstones_empty n"
proof (induction l arbitrary: h)
  case Nil
  then show ?case by simp
next
  case (Cons k ks)
  then obtain its c where i: "items h = Some its" "prop_get its k = Some c" "get_at c ks = Some n"
    by (auto split: option.splits)
  from te_child[OF Cons.prems(1) i(1,2)] Cons.IH i(3) show ?case by blast
qed

lemma te_map_at:
  assumes "tombstones_empty h" and "get_at h l = Some n" and "tombstones_empty n'"
  shows "tombstones_empty (map_at l (\<lambda>_. n') h)"
  using assms
proof (induction l arbitrary: h)
  case Nil
  then show ?case by simp
next
  case (Cons k ks)
  then obtain its c where i: "items h = Some its" "prop_get its k = Some c" "get_at c ks = Some n"
    by (auto split: option.splits)
  have c: "tombstones_empty c" by (rule te_child[OF Cons.prems(1) i(1,2)])
  have live: "\<not> nodeIsDeleted h" by (rule te_live_parent[OF Cons.prems(1) i(1,2)])
  have "tombstones_empty (map_at ks (\<lambda>_. n') c)"
    by (rule Cons.IH[OF c i(3) Cons.prems(3)])
  from te_set_item[OF Cons.prems(1) live this, of k]
  show ?case using i by (simp add: set_item_def)
qed

lemma te_new_dir [simp]: "tombstones_empty (new_dir st ts)"
  by (simp add: new_dir_def prop_get_def)

lemma te_new_file [simp]: "tombstones_empty (new_file st ts)"
  by (simp add: new_file_def prop_get_def)

lemma live_new [simp]: "\<not> nodeIsDeleted (new_dir st ts)" "\<not> nodeIsDeleted (new_file st ts)"
  by (simp_all add: new_dir_def new_file_def nodeIsDeleted_def prop_get_def)

lemma te_cnp_child:
  "tombstones_empty p \<Longrightarrow> items p = Some its \<Longrightarrow> tombstones_empty (cnp_child st ts its nm)"
  by (auto simp: cnp_child_def te_del_meta split: option.splits dest: te_child)

lemma live_cnp_child [simp]: "\<not> nodeIsDeleted (cnp_child st ts its nm)"
  by (simp add: cnp_child_def split: option.splits)

lemma live_cnp_parent [simp]: "\<not> nodeIsDeleted (cnp_parent its nm p)"
  by (simp add: cnp_parent_def)

lemma te_cnp_parent:
  assumes "tombstones_empty p" "items p = Some its"
  shows "tombstones_empty (cnp_parent its nm p)"
proof (cases "prop_get its nm")
  case None
  with assms show ?thesis by (simp add: cnp_parent_def te_del_meta)
next
  case (Some c0)
  have "tombstones_empty (set_item nm (del_meta ''deletedAt'' c0) (del_meta ''deletedAt'' p))"
    by (rule te_set_item) (simp_all add: te_del_meta assms te_child[OF assms Some])
  with Some show ?thesis by (simp add: cnp_parent_def del_meta_set_item)
qed

lemma items_cnp_parent:
  "items p = Some its \<Longrightarrow>
   items (cnp_parent its nm p) =
     Some (case prop_get its nm of None \<Rightarrow> its
           | Some c0 \<Rightarrow> prop_set nm (del_meta ''deletedAt'' c0) its)"
  by (simp add: cnp_parent_def del_meta_def set_item_def split: option.splits)

lemma metadata_cnp_parent:
  "metadata (cnp_parent its nm p) = prop_del ''deletedAt'' (metadata p)"
  by (simp add: cnp_parent_def del_meta_def set_item_def split: option.splits)

lemma te_cnp_sub:
  "tombstones_empty p \<Longrightarrow> tombstones_empty (snd (cnp_sub st ts segs nm p))"
proof (induction segs nm p rule: cnp_sub_induct[where st=st and ts=ts])
  case (Nil nm p)
  then show ?case by simp
next
  case (NoItems s rest nm0 p)
  then show ?case by (simp add: cnp_sub_no_items del: cnp_sub.simps)
next
  case (Step s rest nm0 p its nm segs)
  show ?case
  proof (cases "segs = []")
    case True
    then show ?thesis
      using Step.prems Step.hyps
      by (simp add: cnp_sub_Cons[OF Step.hyps(2,1)] te_cnp_parent del: cnp_sub.simps)
  next
    case False
    obtain r c' where rc: "cnp_sub st ts segs nm (cnp_child st ts its nm) = (r, c')"
      by (cases "cnp_sub st ts segs nm (cnp_child st ts its nm)")
    have "tombstones_empty c'"
      using Step.IH[OF False te_cnp_child[OF Step.prems Step.hyps(1)]] rc by simp
    then have "tombstones_empty (set_item nm c' (cnp_parent its nm p))"
      by (intro te_set_item te_cnp_parent[OF Step.prems Step.hyps(1)]) simp_all
    then show ?thesis
      using False rc by (simp add: cnp_sub_Cons[OF Step.hyps(2,1)] del: cnp_sub.simps)
  qed
qed

lemma cnp_sub_createdAt:
  "prop_get (metadata (snd (cnp_sub st ts segs nm p))) ''createdAt''
     = prop_get (metadata p) ''createdAt''"
proof (cases segs)
  case Nil
  then show ?thesis by simp
next
  case (Cons s rest)
  obtain nm' segs' where sh: "shift_name s rest = (nm', segs')" by (cases "shift_name s rest")
  show ?thesis
  proof (cases "items p")
    case None
    then show ?thesis unfolding Cons by (simp add: cnp_sub_no_items del: cnp_sub.simps)
  next
    case (Some its)
    show ?thesis
      unfolding Cons cnp_sub_Cons[OF sh Some]
      by (simp add: metadata_cnp_parent prop_get_prop_del set_item_def split: prod.splits)
  qed
qed

lemma cnp_sub_items_presence:
  "(items (snd (cnp_sub st ts segs nm p)) = None) = (items p = None)"
proof (cases segs)
  case Nil
  then show ?thesis by simp
next
  case (Cons s rest)
  obtain nm' segs' where sh: "shift_name s rest = (nm', segs')" by (cases "shift_name s rest")
  show ?thesis
  proof (cases "items p")
    case None
    then show ?thesis unfolding Cons by (simp add: cnp_sub_no_items del: cnp_sub.simps)
  next
    case (Some its)
    show ?thesis
      unfolding Cons cnp_sub_Cons[OF sh Some]
      using Some by (simp add: items_cnp_parent set_item_def split: prod.splits)
  qed
qed


lemma cnp_sub_result:
  assumes "segs \<noteq> []" and "cnp_sub st ts segs nm p = (Inr (l, nm'), p')"
  shows "\<exists>q its. get_at p' l = Some q \<and> items q = Some its \<and> \<not> nodeIsDeleted q
           \<and> (\<forall>c. prop_get its nm' = Some c \<longrightarrow> \<not> nodeIsDeleted c)"
  using assms
proof (induction segs nm p arbitrary: l p' rule: cnp_sub_induct[where st=st and ts=ts])
  case (Nil nm p)
  then show ?case by simp
next
  case (NoItems s rest nm0 p)
  then show ?case by (simp add: cnp_sub_no_items del: cnp_sub.simps)
next
  case (Step s rest nm0 p its nm segs)
  show ?case
  proof (cases "segs = []")
    case True
    with Step.prems(2) have e: "l = []" "nm' = nm" "p' = cnp_parent its nm p"
      by (auto simp add: cnp_sub_Cons[OF Step.hyps(2,1)] simp del: cnp_sub.simps)
    have "\<forall>c. prop_get (case prop_get its nm of None \<Rightarrow> its
           | Some c0 \<Rightarrow> prop_set nm (del_meta ''deletedAt'' c0) its) nm = Some c
             \<longrightarrow> \<not> nodeIsDeleted c"
      by (auto simp: prop_get_prop_set split: option.splits)
    then show ?thesis
      using e items_cnp_parent[OF Step.hyps(1), of nm] by simp
  next
    case False
    obtain r c' where rc: "cnp_sub st ts segs nm (cnp_child st ts its nm) = (r, c')"
      by (cases "cnp_sub st ts segs nm (cnp_child st ts its nm)")
    from Step.prems(2) False rc obtain l0 where
      r: "r = Inr (l0, nm')" and l: "l = nm # l0" and p': "p' = set_item nm c' (cnp_parent its nm p)"
      by (cases r) (auto simp add: cnp_sub_Cons[OF Step.hyps(2,1)] simp del: cnp_sub.simps)
    from Step.IH[OF False False] rc r obtain q qits where
      q: "get_at c' l0 = Some q" "items q = Some qits" "\<not> nodeIsDeleted q"
         "\<forall>c. prop_get qits nm' = Some c \<longrightarrow> \<not> nodeIsDeleted c"
      by blast
    have "get_at p' l = Some q"
      using q(1) l p' by (simp add: set_item_def prop_get_prop_set)
    with q show ?thesis by blast
  qed
qed

lemma map_at_invalid: "get_at h l = None \<Longrightarrow> map_at l f h = h"
proof (induction l arbitrary: h)
  case Nil
  then show ?case by simp
next
  case (Cons k ks)
  show ?case
  proof (cases "items h")
    case None
    then show ?thesis by simp
  next
    case (Some its)
    show ?thesis
    proof (cases "prop_get its k")
      case None
      with Some show ?thesis by simp
    next
      case c: (Some c)
      with Some Cons.prems have "get_at c ks = None" by simp
      from Cons.IH[OF this] Some c show ?thesis by (cases h) (simp add: prop_set_same)
    qed
  qed
qed

lemma te_update:
  assumes "tombstones_empty h" and "\<And>n. get_at h l = Some n \<Longrightarrow> tombstones_empty (f n)"
  shows "tombstones_empty (map_at l f h)"
proof (cases "get_at h l")
  case None
  then show ?thesis using assms(1) by (simp add: map_at_invalid)
next
  case (Some n)
  have "map_at l f h = map_at l (\<lambda>_. f n) h" by (rule map_at_const[OF Some])
  then show ?thesis using te_map_at[OF assms(1) Some assms(2)[OF Some]] by simp
qed

lemma stamping_update:
  assumes "\<And>n. prop_get (metadata (f n)) ''createdAt'' = prop_get (metadata n) ''createdAt''"
  shows "stamping (map_at l f h) = stamping h"
  by (rule stamping_map_at) (rule assms)

lemma createdAt_del_meta [simp]:
  "prop_get (metadata (del_meta ''deletedAt'' n)) ''createdAt'' = prop_get (metadata n) ''createdAt''"
  by (simp add: del_meta_def prop_get_prop_del)

lemma createdAt_set_meta [simp]:
  "k \<noteq> ''createdAt'' \<Longrightarrow>
   prop_get (metadata (set_meta k v n)) ''createdAt'' = prop_get (metadata n) ''createdAt''"
  by (simp add: set_meta_def prop_get_prop_set)

lemma metadata_simps [simp]:
  "metadata (set_item k c n) = metadata n"
  "metadata (set_items its n) = metadata n"
  "metadata (set_hashLinks hl n) = metadata n"
  by (simp_all add: set_item_def set_items_def set_hashLinks_def)

lemma nodeIsDeleted_simps [simp]:
  "nodeIsDeleted (set_item k c n) = nodeIsDeleted n"
  "nodeIsDeleted (set_items its n) = nodeIsDeleted n"
  "nodeIsDeleted (set_hashLinks hl n) = nodeIsDeleted n"
  "k' \<noteq> ''deletedAt'' \<Longrightarrow> nodeIsDeleted (set_meta k' v n) = nodeIsDeleted n"
  by (simp_all add: nodeIsDeleted_def set_meta_def prop_get_prop_set)

lemma stamping_utm [simp]:
  "k \<noteq> ''createdAt'' \<Longrightarrow> stamping (updateTimeMetadata ts l k h) = stamping h"
  by (simp add: updateTimeMetadata_def stamping_update)

lemma utm_off: "\<not> stamping h \<Longrightarrow> updateTimeMetadata ts l k h = h"
  by (simp add: updateTimeMetadata_def)



text \<open>createFileNode and createDirectoryNode at a parent that exists\<close>

lemma create_at:
  assumes "get_at h P = Some p"
  shows "updateTimeMetadata ts (P @ [nm]) ''createdAt'' (map_at P (set_item nm c0) h)
         = map_at P (\<lambda>_. set_item nm (if stamping h then set_meta ''createdAt'' (VStr ts) c0 else c0) p) h"
proof -
  have a: "map_at P (set_item nm c0) h = map_at P (\<lambda>_. set_item nm c0 p) h"
    by (rule map_at_const[OF assms])
  have sta: "stamping (map_at P (\<lambda>_. set_item nm c0 p) h) = stamping h"
    by (rule stamping_const[OF assms]) simp
  show ?thesis
  proof (cases "stamping h")
    case True
    have "map_at (P @ [nm]) (set_meta ''createdAt'' (VStr ts)) (map_at P (\<lambda>_. set_item nm c0 p) h)
          = map_at P (\<lambda>_. map_at [nm] (set_meta ''createdAt'' (VStr ts)) (set_item nm c0 p)) h"
      by (simp add: map_at_append map_at_comp)
    also have "map_at [nm] (set_meta ''createdAt'' (VStr ts)) (set_item nm c0 p)
               = set_item nm (set_meta ''createdAt'' (VStr ts) c0) p"
      by (simp add: set_item_def prop_get_prop_set prop_set_prop_set)
    finally show ?thesis using True sta by (simp add: updateTimeMetadata_def a)
  next
    case False
    then show ?thesis using sta by (simp add: a utm_off)
  qed
qed

lemma createFileNode_at:
  "get_at h P = Some p \<Longrightarrow>
   createFileNode ts P nm h = map_at P (\<lambda>_. set_item nm (new_file (stamping h) ts) p) h"
  by (simp add: createFileNode_def create_at new_file_def set_meta_def)

lemma createDirectoryNode_at:
  "get_at h P = Some p \<Longrightarrow>
   createDirectoryNode ts P nm h = map_at P (\<lambda>_. set_item nm (new_dir (stamping h) ts) p) h"
  by (simp add: createDirectoryNode_def create_at new_dir_def set_meta_def)

lemma split_path_nonempty [simp]: "split_path p \<noteq> []"
  by (induction p) (auto split: list.splits)

lemma stamping_cnp_sub: "stamping (snd (cnp_sub st ts segs nm h)) = stamping h"
  by (simp add: stamping_def cnp_sub_createdAt)

lemma createNodesFromPath_sub:
  "createNodesFromPath ts path tr hdr =
     (case cnp_sub (stamping hdr) ts (split_path path) ''undefined'' hdr of
        (Inl e, h) \<Rightarrow> (Inl e, h)
      | (Inr (P, nm), h) \<Rightarrow>
          (case get_at h P of
             None \<Rightarrow> (Inl TypeError, h)
           | Some p \<Rightarrow>
              (case items p of
                 None \<Rightarrow> (Inl TypeError, h)
               | Some its \<Rightarrow>
                   (Inr (P @ [nm]),
                    if prop_get its nm = None
                    then map_at P (\<lambda>_. set_item nm (trailing_node tr (stamping hdr) ts) p) h
                    else h))))"
proof -
  have loop: "cnp_loop ts (split_path path) ''undefined'' [] hdr =
        (case cnp_sub (stamping hdr) ts (split_path path) ''undefined'' hdr of
              (r, p') \<Rightarrow> (map_sum id (\<lambda>(l, n). ([] @ l, n)) r, map_at [] (\<lambda>_. p') hdr))"
    by (rule cnp_loop_sub) simp_all
  obtain r h where rh: "cnp_sub (stamping hdr) ts (split_path path) ''undefined'' hdr = (r, h)"
    by (cases "cnp_sub (stamping hdr) ts (split_path path) ''undefined'' hdr")
  have sth: "stamping h = stamping hdr"
    using stamping_cnp_sub[of "stamping hdr" ts "split_path path" "''undefined''" hdr] rh by simp
  show ?thesis
  proof (cases r)
    case (Inl e)
    with loop rh show ?thesis by (simp add: createNodesFromPath_def)
  next
    case (Inr a)
    obtain P nm where a: "a = (P, nm)" by (cases a)
    have l: "cnp_loop ts (split_path path) ''undefined'' [] hdr = (Inr (P, nm), h)"
      using loop rh Inr a by simp
    show ?thesis
    proof (cases "get_at h P")
      case None
      with l rh Inr a show ?thesis by (simp add: createNodesFromPath_def)
    next
      case (Some p)
      show ?thesis
        using l rh Inr a Some sth
        by (simp add: createNodesFromPath_def createFileNode_at[OF Some]
              createDirectoryNode_at[OF Some] trailing_node_def split: option.splits)
    qed
  qed
qed

lemma stamping_createNodesFromPath [simp]:
  "stamping (snd (createNodesFromPath ts path tr hdr)) = stamping hdr"
proof -
  obtain r h where rh: "cnp_sub (stamping hdr) ts (split_path path) ''undefined'' hdr = (r, h)"
    by (cases "cnp_sub (stamping hdr) ts (split_path path) ''undefined'' hdr")
  have sth: "stamping h = stamping hdr"
    using stamping_cnp_sub[of "stamping hdr" ts "split_path path" "''undefined''" hdr] rh by simp
  have "stamping (map_at P (\<lambda>_. set_item nm c p) h) = stamping h" if "get_at h P = Some p"
    for P nm c p
    by (rule stamping_const[OF that]) simp
  then show ?thesis
    unfolding createNodesFromPath_sub using rh sth
    by (auto split: sum.splits option.splits prod.splits)
qed


lemma te_trailing [simp]: "tombstones_empty (trailing_node tr st ts)"
  by (simp add: trailing_node_def)

lemma live_trailing [simp]: "\<not> nodeIsDeleted (trailing_node tr st ts)"
  by (simp add: trailing_node_def)

lemma te_createNodesFromPath:
  assumes "tombstones_empty hdr"
  shows "tombstones_empty (snd (createNodesFromPath ts path tr hdr))"
proof -
  obtain r h where rh: "cnp_sub (stamping hdr) ts (split_path path) ''undefined'' hdr = (r, h)"
    by (cases "cnp_sub (stamping hdr) ts (split_path path) ''undefined'' hdr")
  have teh: "tombstones_empty h"
    using te_cnp_sub[OF assms, of "stamping hdr" ts "split_path path" "''undefined''"] rh by simp
  show ?thesis
  proof (cases r)
    case (Inl e)
    with rh teh show ?thesis by (simp add: createNodesFromPath_sub)
  next
    case (Inr a)
    obtain P nm where a: "a = (P, nm)" by (cases a)
    from cnp_sub_result[OF split_path_nonempty rh[unfolded Inr a]]
    obtain q its where q: "get_at h P = Some q" "items q = Some its" "\<not> nodeIsDeleted q" by blast
    have "tombstones_empty (map_at P (\<lambda>_. set_item nm (trailing_node tr (stamping hdr) ts) q) h)"
      by (rule te_map_at[OF teh q(1)]) (simp add: te_set_item te_get_at[OF teh q(1)] q(3))
    then show ?thesis
      using rh Inr a q teh by (simp add: createNodesFromPath_sub)
  qed
qed

lemma createNodesFromPath_result:
  assumes "createNodesFromPath ts path tr hdr = (Inr l, h')"
  shows "\<exists>n. get_at h' l = Some n \<and> \<not> nodeIsDeleted n"
proof -
  obtain r h where rh: "cnp_sub (stamping hdr) ts (split_path path) ''undefined'' hdr = (r, h)"
    by (cases "cnp_sub (stamping hdr) ts (split_path path) ''undefined'' hdr")
  from assms rh obtain P nm where r: "r = Inr (P, nm)"
    by (cases r) (auto simp: createNodesFromPath_sub)
  from cnp_sub_result[OF split_path_nonempty rh[unfolded r]]
  obtain q its where q: "get_at h P = Some q" "items q = Some its" "\<not> nodeIsDeleted q"
    "\<forall>c. prop_get its nm = Some c \<longrightarrow> \<not> nodeIsDeleted c" by blast
  show ?thesis
  proof (cases "prop_get its nm")
    case None
    with assms rh r q have l: "l = P @ [nm]"
      and h': "h' = map_at P (\<lambda>_. set_item nm (trailing_node tr (stamping hdr) ts) q) h"
      by (simp_all add: createNodesFromPath_sub)
    have "get_at h' l = Some (trailing_node tr (stamping hdr) ts)"
      unfolding l h' using q(1)
      by (simp add: get_at_append get_at_map_at set_item_def prop_get_prop_set)
    then show ?thesis by simp
  next
    case (Some c)
    with assms rh r q have l: "l = P @ [nm]" and h': "h' = h"
      by (simp_all add: createNodesFromPath_sub)
    have "get_at h' l = Some c"
      unfolding l h' using q(1,2) Some by (simp add: get_at_append)
    with q(4) Some show ?thesis by simp
  qed
qed

lemma prop_get_map: "prop_get (map (map_prod id f) m) k = map_option f (prop_get m k)"
  by (induction m) (auto simp: prop_get_def)


text \<open>clear_deleted\<close>

lemma te_clear_deleted: "tombstones_empty h \<Longrightarrow> tombstones_empty (clear_deleted l h)"
  by (auto simp: clear_deleted_def split: option.splits intro!: te_update te_del_meta dest: te_get_at)

lemma stamping_clear_deleted [simp]: "stamping (clear_deleted l h) = stamping h"
  by (simp add: clear_deleted_def stamping_update split: option.splits)

lemma clear_deleted_live:
  "get_at h l = Some n \<Longrightarrow> \<not> nodeIsDeleted n \<Longrightarrow> clear_deleted l h = h"
  by (simp add: clear_deleted_def nodeIsDeleted_def)


lemma stamping_appendBrick [simp]: "stamping (snd (appendBrick ts l b h)) = stamping h"
  by (simp add: appendBrick_def Let_def stamping_update split: option.splits)



lemma stamping_add [simp]: "stamping (snd (add nrm ts p b hdr)) = stamping hdr"
proof -
  have "stamping (snd (createNodesFromPath ts (nrm p) Child hdr)) = stamping hdr" by simp
  then show ?thesis
    by (cases "createNodesFromPath ts (nrm p) Child hdr")
       (auto simp: add_def Let_def split: sum.splits)
qed


text \<open>getNodeFromPath, replaceFirstBrick, replaceLastBrick\<close>

lemma getNodeFromPath_facts:
  assumes "getNodeFromPath nrm ts p hdr = (r, h1)"
  shows "stamping h1 = stamping hdr"
    and "tombstones_empty hdr \<Longrightarrow> tombstones_empty h1"
    and "\<And>l. r = Inr l \<Longrightarrow> \<exists>n. get_at h1 l = Some n \<and> \<not> nodeIsDeleted n"
proof -
  obtain r0 h0 where c: "createNodesFromPath ts (nrm p) Child hdr = (r0, h0)"
    by (cases "createNodesFromPath ts (nrm p) Child hdr")
  have s0: "stamping h0 = stamping hdr"
    using stamping_createNodesFromPath[of ts "nrm p" Child hdr] c by simp
  have t0: "tombstones_empty h0" if "tombstones_empty hdr"
    using te_createNodesFromPath[OF that, of ts "nrm p" Child] c by simp
  show "stamping h1 = stamping hdr"
    using assms c s0 by (auto simp: getNodeFromPath_def Let_def split: if_splits sum.splits)
  show "tombstones_empty h1" if "tombstones_empty hdr"
    using assms c t0[OF that] that
    by (auto simp: getNodeFromPath_def Let_def te_clear_deleted split: if_splits sum.splits)
  show "\<exists>n. get_at h1 l = Some n \<and> \<not> nodeIsDeleted n" if "r = Inr l" for l
  proof -
    from assms that c have r0: "r0 = Inr l" and h1: "h1 = clear_deleted l h0"
      by (auto simp: getNodeFromPath_def Let_def split: if_splits sum.splits)
    from createNodesFromPath_result[OF c[unfolded r0]]
    obtain n where n: "get_at h0 l = Some n" "\<not> nodeIsDeleted n" by blast
    then show ?thesis using h1 by (simp add: clear_deleted_live[OF n])
  qed
qed





lemma stamping_replaceFirstBrick [simp]:
  "stamping (snd (replaceFirstBrick nrm ts p b hdr)) = stamping hdr"
proof -
  obtain r h1 where g: "getNodeFromPath nrm ts p hdr = (r, h1)"
    by (cases "getNodeFromPath nrm ts p hdr")
  from getNodeFromPath_facts(1)[OF g] g show ?thesis
    by (auto simp: replaceFirstBrick_def Let_def stamping_update split: sum.splits option.splits)
qed

lemma stamping_replaceLastBrick [simp]:
  "stamping (snd (replaceLastBrick nrm ts p b hdr)) = stamping hdr"
proof -
  obtain r h1 where g: "getNodeFromPath nrm ts p hdr = (r, h1)"
    by (cases "getNodeFromPath nrm ts p hdr")
  from getNodeFromPath_facts(1)[OF g] g show ?thesis
    by (auto simp: replaceLastBrick_def Let_def stamping_update split: sum.splits option.splits)
qed



text \<open>delete\<close>

lemma te_deleted_node [simp]: "tombstones_empty (deleted_node st ts n)"
  unfolding tombstones_empty_iff[of "deleted_node st ts n"]
  by (simp add: deleted_node_def)


lemma stamping_delete [simp]: "stamping (snd (delete nrm ts p hdr)) = stamping hdr"
proof (cases "getDeepestNode nrm hdr (nrm p)")
  case (Inl e)
  then show ?thesis by (simp add: delete_def)
next
  case (Inr r)
  show ?thesis
  proof (cases r)
    case None
    with Inr show ?thesis by (simp add: delete_def)
  next
    case (Some a)
    obtain l n where a: "a = (l, n)" by (cases a)
    have at: "get_at hdr l = Some n"
      by (rule getDeepestNode_get_at) (use Inr Some a in simp)
    show ?thesis
      using Inr Some a stamping_deleted[OF at]
      by (simp add: delete_def deleteNode_at[OF at])
  qed
qed



lemma stamping_truncateNode [simp]: "stamping (truncateNode ts l h) = stamping h"
  by (simp add: truncateNode_def stamping_update)



lemma stamping_emptyList [simp]: "stamping (snd (emptyList nrm ts p hdr)) = stamping hdr"
  by (auto simp: emptyList_def split: sum.splits option.splits)



lemma stamping_createNode [simp]: "stamping (snd (createNode nrm ts p tr hdr)) = stamping hdr"
proof -
  have "stamping (snd (createNodesFromPath ts (nrm p) tr hdr)) = stamping hdr" by simp
  then show ?thesis
    by (cases "createNodesFromPath ts (nrm p) tr hdr")
       (auto simp: createNode_def Let_def split: sum.splits option.splits if_splits)
qed



lemma stamping_copy [simp]: "stamping (snd (copy nrm ts src dst hdr)) = stamping hdr"
proof -
  have "stamping (snd (createNodesFromPath ts dst tr hdr)) = stamping hdr" for tr by simp
  then have "stamping h1 = stamping hdr" if "createNodesFromPath ts dst tr hdr = (r1, h1)" for tr r1 h1
    using that by (metis snd_conv)
  then show ?thesis
    by (auto simp: copy_def stamping_update split: sum.splits option.splits prod.splits)
qed


text \<open>metadata\<close>

lemma truthy_to_json [simp]: "truthy (to_json v) = truthy v"
  by (cases v) (simp_all add: buffer_toJSON_def)






lemma stamping_appendBricksToFile [simp]:
  "stamping (snd (appendBricksToFile nrm ts p bs hdr)) = stamping hdr"
proof (induction bs arbitrary: hdr)
  case Nil
  then show ?case by simp
next
  case (Cons b bs)
  obtain e h1 where a: "add nrm ts p b hdr = (e, h1)" by (cases "add nrm ts p b hdr")
  have "stamping h1 = stamping hdr" using stamping_add[of nrm ts p b hdr] a by simp
  with Cons.IH[of h1] a show ?case by (cases e) simp_all
qed



lemma stamping_addFileEntry [simp]:
  "stamping (snd (addFileEntry nrm ts p bs hdr)) = stamping hdr"
proof -
  obtain e h1 where a: "emptyList nrm ts p hdr = (e, h1)" by (cases "emptyList nrm ts p hdr")
  have "stamping h1 = stamping hdr" using stamping_emptyList[of nrm ts p hdr] a by simp
  then show ?thesis
    using a by (auto simp: addFileEntry_def split: sum.splits bool.splits option.splits)
qed











subsection \<open>Prevented time stamps\<close>





subsection \<open>Serialisation round trip\<close>

lemma to_json_buffer_toJSON [simp]: "to_json (buffer_toJSON bs) = buffer_toJSON bs"
  by (simp add: buffer_toJSON_def)

lemma walk_nums: "seq_err (map walk (map (\<lambda>b. VNum (uint b)) bs)) = Inr (map (\<lambda>b. VNum (uint b)) bs)"
  by (induction bs) simp_all

lemma walk_buffer_toJSON [simp]: "walk (buffer_toJSON bs) = Inr (buffer_toJSON bs)"
  using walk_nums[of bs] by (simp add: buffer_toJSON_def revive_prop_def)

lemma byte_roundtrip: "is_byte x \<Longrightarrow> VNum (uint (byte_of x)) = x"
  by (cases x) (simp_all add: uint_word_of_int take_bit_int_eq_self)

lemma buffer_from_bytes:
  "list_all is_byte xs \<Longrightarrow> map (\<lambda>b. VNum (uint b)) (buffer_from xs) = xs"
  by (induction xs) (simp_all add: buffer_from_def byte_roundtrip)

lemma buffer_from_toJSON [simp]: "buffer_from (map (\<lambda>b. VNum (uint b)) bs) = bs"
  by (induction bs) (simp_all add: buffer_from_def)

lemma to_json_num: "to_json x = VNum n \<Longrightarrow> x = VNum n"
  by (cases x) (simp_all add: buffer_toJSON_def)

lemma to_json_str: "to_json x = VStr s \<Longrightarrow> x = VStr s"
  by (cases x) (simp_all add: buffer_toJSON_def)

lemma to_json_bytes: "list_all is_byte (map to_json xs) \<Longrightarrow> map to_json xs = xs"
proof (induction xs)
  case Nil
  then show ?case by simp
next
  case (Cons x xs)
  from Cons.prems obtain n where "to_json x = VNum n" by (cases "to_json x") simp_all
  then have "to_json x = x" using to_json_num by fastforce
  with Cons show ?case by simp
qed

lemma to_json_arr: "to_json d = VArr xs \<Longrightarrow> \<exists>xs'. d = VArr xs' \<and> map to_json xs' = xs"
  by (cases d) (simp_all add: buffer_toJSON_def)

lemma looks_like_buffer_to_json:
  "looks_like_buffer v \<Longrightarrow> looks_like_buffer (to_json v)"
proof (cases v)
  case (VObj ps)
  assume "looks_like_buffer v"
  with VObj obtain xs where "length ps = 2" "prop_get ps ''type'' = Some (VStr ''$$.Buffer'')"
    "prop_get ps ''data'' = Some (VArr xs)"
    by (cases "prop_get ps ''data''"; cases "the (prop_get ps ''data'')") auto
  with VObj show ?thesis by (simp add: prop_get_map)
qed simp_all

lemma reviver_sound:
  assumes "to_json v' = j" and "key_value_ok (k, j)"
  shows "\<exists>r. reviver k v' = Inr r \<and> to_json r = j"
proof (cases "k = ''key''")
  case False
  with assms show ?thesis by simp
next
  case True
  with assms(2) have nn: "j \<noteq> VNull" and enc: "looks_like_buffer j \<Longrightarrow> is_byte_encoding j"
    by (simp_all add: key_value_ok_def)
  from nn assms(1) have v'nn: "v' \<noteq> VNull" by auto
  show ?thesis
  proof (cases "looks_like_buffer v'")
    case False
    then have "reviver k v' = Inr v'"
      using v'nn True by (cases v') (auto split: option.splits jsval.splits)
    with assms(1) show ?thesis by simp
  next
    case llb: True
    then obtain ps where v': "v' = VObj ps" by (cases v') simp_all
    from llb v' obtain d where ps: "length ps = 2" "prop_get ps ''type'' = Some (VStr ''$$.Buffer'')"
      "prop_get ps ''data'' = Some (VArr d)"
      by (cases "prop_get ps ''data''"; cases "the (prop_get ps ''data'')") auto
    have "is_byte_encoding j" using enc looks_like_buffer_to_json[OF llb] assms(1) by simp
    then obtain xs where j: "j = VObj [(''type'', VStr ''$$.Buffer''), (''data'', VArr xs)]"
      and bytes: "list_all is_byte xs"
      by (elim is_byte_encoding.elims) auto
    from assms(1) v' j have "map (map_prod id to_json) ps = [(''type'', VStr ''$$.Buffer''), (''data'', VArr xs)]"
      by simp
    with ps(3) have "to_json (VArr d) = VArr xs"
      using prop_get_map[of to_json ps "''data''"] by (simp add: prop_get_def)
    then have "map to_json d = xs" by simp
    with bytes have dx: "d = xs" using to_json_bytes[of d] by simp
    have "reviver k v' = Inr (VBuf (buffer_from d))"
      using True v' ps by simp
    moreover have "to_json (VBuf (buffer_from d)) = j"
      using dx bytes j by (simp add: buffer_toJSON_def buffer_from_bytes)
    ultimately show ?thesis by simp
  qed
qed

lemma arr_step:
  assumes "\<And>x. x \<in> set xs \<Longrightarrow> \<exists>y. walk (f x) = Inr y \<and> g y = f x"
  shows "\<exists>ys. seq_err (map walk (map f xs)) = Inr ys \<and> map g ys = map f xs"
  using assms
proof (induction xs)
  case Nil
  then show ?case by simp
next
  case (Cons x xs)
  have "\<exists>y. walk (f x) = Inr y \<and> g y = f x" by (rule Cons.prems) simp
  then obtain y where y: "walk (f x) = Inr y" "g y = f x" by blast
  have "\<exists>ys. seq_err (map walk (map f xs)) = Inr ys \<and> map g ys = map f xs"
    by (rule Cons.IH) (rule Cons.prems, simp)
  then obtain ys where
    ys: "seq_err (map walk (map f xs)) = Inr ys" "map g ys = map f xs" by blast
  have "seq_err (map walk (map f (x # xs))) = Inr (y # ys)"
    using y ys by simp
  moreover have "map g (y # ys) = map f (x # xs)" using y ys by simp
  ultimately show ?case by blast
qed

lemma obj_step:
  assumes "\<And>k v. (k, v) \<in> set ps \<Longrightarrow>
             \<exists>r. revive_prop (k, walk (f v)) = Inr (k, r) \<and> g r = f v"
  shows "\<exists>qs. seq_err (map revive_prop (map (map_prod id walk) (map (map_prod id f) ps))) = Inr qs
           \<and> map (map_prod id g) qs = map (map_prod id f) ps"
  using assms
proof (induction ps)
  case Nil
  then show ?case by simp
next
  case (Cons p ps)
  obtain k v where p: "p = (k, v)" by (cases p)
  have "\<exists>r. revive_prop (k, walk (f v)) = Inr (k, r) \<and> g r = f v"
    by (rule Cons.prems) (simp add: p)
  then obtain r where
    r: "revive_prop (k, walk (f v)) = Inr (k, r)" "g r = f v" by blast
  have "\<exists>qs. seq_err (map revive_prop (map (map_prod id walk) (map (map_prod id f) ps))) = Inr qs
           \<and> map (map_prod id g) qs = map (map_prod id f) ps"
    by (rule Cons.IH) (rule Cons.prems, simp)
  then obtain qs where
    qs: "seq_err (map revive_prop (map (map_prod id walk) (map (map_prod id f) ps))) = Inr qs"
        "map (map_prod id g) qs = map (map_prod id f) ps" by blast
  have "seq_err (map revive_prop (map (map_prod id walk) (map (map_prod id f) (p # ps))))
          = Inr ((k, r) # qs)"
    using r qs by (simp add: p)
  moreover have "map (map_prod id g) ((k, r) # qs) = map (map_prod id f) (p # ps)"
    using r qs by (simp add: p)
  ultimately show ?case by blast
qed

lemma walk_to_json:
  "key_safe (to_json h) \<Longrightarrow> \<exists>j'. walk (to_json h) = Inr j' \<and> to_json j' = to_json h"
proof (induction h)
  case (VArr xs)
  have "\<exists>y. walk (to_json x) = Inr y \<and> to_json y = to_json x" if "x \<in> set xs" for x
    using VArr.IH[OF that] VArr.prems that by (simp add: list_all_iff)
  from arr_step[of xs to_json to_json, OF this] obtain ys where
    ys: "seq_err (map walk (map to_json xs)) = Inr ys" "map to_json ys = map to_json xs"
    by blast
  have "walk (to_json (VArr xs)) = Inr (VArr ys)"
    using ys by simp
  moreover have "to_json (VArr ys) = to_json (VArr xs)" using ys by simp
  ultimately show ?case by blast
next
  case (VObj ps)
  have step: "\<exists>r. revive_prop (k, walk (to_json v)) = Inr (k, r) \<and> to_json r = to_json v"
    if kv: "(k, v) \<in> set ps" for k v
  proof -
    have "v \<in> Basic_BNFs.snds (k, v)" by simp
    moreover have "key_safe (to_json v)"
      using VObj.prems kv by (force simp: list_all_iff)
    ultimately obtain v' where v': "walk (to_json v) = Inr v'" "to_json v' = to_json v"
      using VObj.IH[OF kv, of v] by auto
    have "key_value_ok (k, to_json v)"
      using VObj.prems kv by (force simp: list_all_iff)
    from reviver_sound[OF v'(2) this] v'(1) show ?thesis
      by (auto simp: revive_prop_def)
  qed
  from obj_step[of ps to_json to_json, OF step] obtain qs where
    qs: "seq_err (map revive_prop (map (map_prod id walk) (map (map_prod id to_json) ps))) = Inr qs"
    "map (map_prod id to_json) qs = map (map_prod id to_json) ps" by blast
  have "walk (to_json (VObj ps)) = Inr (VObj qs)"
    using qs by simp
  moreover have "to_json (VObj qs) = to_json (VObj ps)" using qs by simp
  ultimately show ?case by blast
qed simp_all

lemma reviver_buffer: "reviver ''key'' (buffer_toJSON bs) = Inr (VBuf bs)"
  by (simp add: buffer_toJSON_def prop_get_def)

lemma reviver_root [simp]: "reviver [] v = Inr v"
  by simp

lemma reviver_restores:
  assumes "revived_prop (k, v) (k, True)"
  shows "revive_prop (k, if is_buffer v \<and> k = ''key'' then Inr (to_json v) else Inr v) = Inr (k, v)"
proof (cases "k = ''key''")
  case False
  then show ?thesis by (simp add: revive_prop_def)
next
  case True
  show ?thesis
  proof (cases "is_buffer v")
    case b: True
    then obtain bs where "v = VBuf bs" by (cases v) simp_all
    with True show ?thesis
      by (simp add: revive_prop_def reviver_buffer del: reviver.simps)
  next
    case False
    with assms True have "v \<noteq> VNull" "\<not> looks_like_buffer v"
      by (simp_all add: revived_prop_def)
    then have "reviver k v = Inr v"
      using True by (cases v) (auto split: option.splits jsval.splits)
    with False show ?thesis by (simp add: revive_prop_def)
  qed
qed

lemma walk_restores: "revived_form h \<Longrightarrow> walk (to_json h) = Inr h"
proof (induction h)
  case (VArr xs)
  have "\<forall>x \<in> set xs. walk (to_json x) = Inr x"
    using VArr.IH VArr.prems by (simp add: list_all_iff)
  then have "seq_err (map walk (map to_json xs)) = Inr xs"
  proof (induction xs)
    case Nil
    then show ?case by simp
  next
    case (Cons x xs)
    from Cons.prems have x: "walk (to_json x) = Inr x" by simp
    have xs: "seq_err (map walk (map to_json xs)) = Inr xs"
      by (rule Cons.IH) (use Cons.prems in simp)
    from x xs show ?case by simp
  qed
  then show ?case by simp
next
  case (VObj ps)
  have "\<forall>(k, v) \<in> set ps. revive_prop (k, walk (to_json v)) = Inr (k, v)"
  proof clarify
    fix k v assume kv: "(k, v) \<in> set ps"
    have v: "v \<in> Basic_BNFs.snds (k, v)" by simp
    from VObj.prems kv have rp: "revived_prop (k, v) (k, revived_form v)"
      by (auto simp: list_all2_conv_all_nth in_set_conv_nth)
    show "revive_prop (k, walk (to_json v)) = Inr (k, v)"
    proof (cases "is_buffer v \<and> k = ''key''")
      case True
      then obtain bs where "v = VBuf bs" by (cases v) simp_all
      with True show ?thesis by (simp add: revive_prop_def reviver_buffer del: reviver.simps)
    next
      case False
      with rp have rf: "revived_form v"
        by (cases v) (auto simp: revived_prop_def split: if_splits)
      from VObj.IH[OF kv v rf] have w: "walk (to_json v) = Inr v" .
      from rp rf have "revived_prop (k, v) (k, True)" by simp
      from reviver_restores[OF this] False w show ?thesis by simp
    qed
  qed
  then have "seq_err (map revive_prop (map (map_prod id walk) (map (map_prod id to_json) ps))) = Inr ps"
  proof (induction ps)
    case Nil
    then show ?case by simp
  next
    case (Cons p ps)
    obtain k v where p: "p = (k, v)" by (cases p)
    from Cons.prems p have kv: "revive_prop (k, walk (to_json v)) = Inr (k, v)" by simp
    have ps: "seq_err (map revive_prop (map (map_prod id walk) (map (map_prod id to_json) ps))) = Inr ps"
      by (rule Cons.IH) (use Cons.prems in simp)
    from kv have kv': "revive_prop (id (id k), walk (to_json v)) = Inr (k, v)" by simp
    show ?case
      by (simp only: p list.map map_prod_simp seq_err.simps kv' ps sum.case)
  qed
  then show ?case by simp
qed simp_all

text \<open>
  C5, as the code has it. When the serialised header is \<open>key_safe\<close>, \<open>load\<close> of
  the bytes that \<open>toBrick\<close> produced succeeds, in any map, and the loaded header has
  the same \<open>getState\<close> snapshot as the original. When the header is in
  \<open>revived_form\<close>, the loaded header is the original itself, every buffer under a
  \<open>key\<close> restored to its bytes. Loading the unit itself gives the same in a map whose
  key identity is set, and throws a \<open>TypeError\<close> in a map without one.
\<close>

theorem toBrick_load_roundtrip:
  "(key_safe (to_json h) \<longrightarrow>
      (\<exists>h'. load lk (FromBytes (unit_rawData (toBrick tk h))) = Inr h'
            \<and> getState h' = getState h))
   \<and> (revived_form h \<longrightarrow> load lk (FromBytes (unit_rawData (toBrick tk h))) = Inr h)
   \<and> load (Some k) (FromBrick (toBrick tk h))
       = load lk (FromBytes (unit_rawData (toBrick tk h)))
   \<and> load None (FromBrick (toBrick tk h)) = Inl TypeError"
proof -
  have A: "\<exists>h'. load lk (FromBytes (unit_rawData (toBrick tk h))) = Inr h'
            \<and> getState h' = getState h"
    if "key_safe (to_json h)"
    using walk_to_json[OF that]
    by (auto simp: toBrick_def parse_with_reviver_def getState_def)
  have B: "load lk (FromBytes (unit_rawData (toBrick tk h))) = Inr h" if "revived_form h"
    using walk_restores[OF that] by (simp add: toBrick_def parse_with_reviver_def)
  have C: "load (Some k) (FromBrick (toBrick tk h))
       = load lk (FromBytes (unit_rawData (toBrick tk h)))"
    by simp
  have D: "load None (FromBrick (toBrick tk h)) = Inl TypeError"
    by simp
  from A B C D show ?thesis by blast
qed

theorem toBrick_load_roundtrip_witness:
  "key_safe (to_json (js_of_node (snd (add id ''T1'' ''a/f''
       \<lparr>checkSum = VStr ''c1'', hashLink = VStr ''h1'', size = Some (VNum 3),
          encryptionKey = Some (VBuf [1, 2, 255])\<rparr> (initialize ''T0'' None False)))))
   \<and> revived_form (js_of_node (snd (add id ''T1'' ''a/f''
       \<lparr>checkSum = VStr ''c1'', hashLink = VStr ''h1'', size = Some (VNum 3),
          encryptionKey = Some (VBuf [1, 2, 255])\<rparr> (initialize ''T0'' None False))))
   \<and> load None (FromBytes (unit_rawData (toBrick (Some (KeySSI ''tpl''))
       (js_of_node (snd (add id ''T1'' ''a/f''
       \<lparr>checkSum = VStr ''c1'', hashLink = VStr ''h1'', size = Some (VNum 3),
          encryptionKey = Some (VBuf [1, 2, 255])\<rparr> (initialize ''T0'' None False)))))))
     = Inr (js_of_node (snd (add id ''T1'' ''a/f''
       \<lparr>checkSum = VStr ''c1'', hashLink = VStr ''h1'', size = Some (VNum 3),
          encryptionKey = Some (VBuf [1, 2, 255])\<rparr> (initialize ''T0'' None False))))
   \<and> load (Some (KeySSI ''tpl'')) (FromBrick (toBrick (Some (KeySSI ''tpl''))
       (js_of_node (snd (add id ''T1'' ''a/f''
       \<lparr>checkSum = VStr ''c1'', hashLink = VStr ''h1'', size = Some (VNum 3),
          encryptionKey = Some (VBuf [1, 2, 255])\<rparr> (initialize ''T0'' None False))))))
     = Inr (js_of_node (snd (add id ''T1'' ''a/f''
       \<lparr>checkSum = VStr ''c1'', hashLink = VStr ''h1'', size = Some (VNum 3),
          encryptionKey = Some (VBuf [1, 2, 255])\<rparr> (initialize ''T0'' None False))))"
proof -
  let ?h = "js_of_node (snd (add id ''T1'' ''a/f''
       \<lparr>checkSum = VStr ''c1'', hashLink = VStr ''h1'', size = Some (VNum 3),
          encryptionKey = Some (VBuf [1, 2, 255])\<rparr> (initialize ''T0'' None False)))"
  let ?tk = "Some (KeySSI ''tpl'')"
  have k: "key_safe (to_json ?h)" by code_simp
  have r: "revived_form ?h" by code_simp
  note T = toBrick_load_roundtrip[of ?h None ?tk "KeySSI ''tpl''"]
  from T r have b: "load None (FromBytes (unit_rawData (toBrick ?tk ?h))) = Inr ?h" by blast
  from T have "load ?tk (FromBrick (toBrick ?tk ?h))
      = load None (FromBytes (unit_rawData (toBrick ?tk ?h)))" by blast
  with b have u: "load ?tk (FromBrick (toBrick ?tk ?h)) = Inr ?h" by simp
  from k r b u show ?thesis by blast
qed

text \<open>
  C5 as stated fails for headers that are not \<open>key_safe\<close>. After
  \<open>updateMetadata(path, "key", null)\<close> the reviver throws and nothing is loaded. After
  \<open>add\<close> with an encryption key that is a plain object of the encoding's shape with
  the data \<open>[300]\<close>, the loaded key is the buffer \<open>[44]\<close> and the snapshots differ.
\<close>

theorem load_fails_or_differs:
  "load None (FromBytes (unit_rawData (toBrick None (js_of_node
      (run id
         [(''T1'', Add ''f'' \<lparr>checkSum = VStr ''c1'', hashLink = VStr ''h1'', size = None,
                              encryptionKey = None\<rparr>),
          (''T2'', UpdateMetadata ''f'' ''key'' VNull)]
         (initialize ''T0'' None False))))))
     = Inl TypeError
   \<and> map_sum id getState
       (load None (FromBytes (unit_rawData (toBrick None (js_of_node
          (snd (add id ''T1'' ''f''
             \<lparr>checkSum = VStr ''c1'', hashLink = VStr ''h1'', size = None,
                encryptionKey =
                  Some (VObj [(''type'', VStr ''$$.Buffer''), (''data'', VArr [VNum 300])])\<rparr>
             (initialize ''T0'' None False))))))))
     \<noteq> Inr (getState (js_of_node
          (snd (add id ''T1'' ''f''
             \<lparr>checkSum = VStr ''c1'', hashLink = VStr ''h1'', size = None,
                encryptionKey =
                  Some (VObj [(''type'', VStr ''$$.Buffer''), (''data'', VArr [VNum 300])])\<rparr>
             (initialize ''T0'' None False)))))"
  by code_simp


subsection \<open>Copying on an explicit store\<close>






lemma to_json_idem [simp]: "to_json (to_json v) = to_json v"
  by (induction v) auto






lemma stringify_fuel_Suc:
  "stringify_node f h a = Some n \<Longrightarrow> stringify_node (Suc f) h a = Some n"
  "stringify_kids f h i = Some its \<Longrightarrow> stringify_kids (Suc f) h i = Some its"
  "stringify_items f h kvs = Some l \<Longrightarrow> stringify_items (Suc f) h kvs = Some l"
proof (induction f h a and f h i and f h kvs arbitrary: n and its and l
       rule: stringify_node_stringify_kids_stringify_items.induct)
  case (1 h a)
  then show ?case by simp
next
  case (2 f h a)
  from "2.prems" obtain m i l md its hl where
    c: "cell h a = Some (ONode m i l)" and md: "stringify_meta h m = Some md" and
    k: "stringify_kids f h i = Some its" and ll: "stringify_links_opt h l = Some hl" and
    n: "n = Node md its hl"
    by (auto split: option.splits obj.splits)
  have "stringify_kids (Suc f) h i = Some its"
    by (rule "2.IH"[OF c refl md k])
  with c md ll n show ?case
    by (simp del: stringify_kids.simps)
next
  case (3 f h)
  then show ?case by simp
next
  case (4 f h ia)
  then show ?case
    by (auto split: option.splits obj.splits)
next
  case (5 f h)
  then show ?case by simp
next
  case (6 f h kv kvs)
  then show ?case by (auto split: option.splits)
qed

lemma stringify_kids_fuel:
  assumes "stringify_kids f h i = Some its" and "f \<le> f'"
  shows "stringify_kids f' h i = Some its"
  using assms(2,1) by (induction f' rule: dec_induct) (auto intro: stringify_fuel_Suc(2))






























lemma copy_store_fuel:
  assumes "copy_store f h srcNode dstNode = Inr r" and "f \<le> f'"
  shows "copy_store f' h srcNode dstNode = Inr r"
proof -
  from assms(1) obtain sm si sl dm di dl where
    s: "cell h srcNode = Some (ONode sm si sl)" and d: "cell h dstNode = Some (ONode dm di dl)"
    by (auto simp: copy_store_def split: option.splits obj.splits)
  show ?thesis
  proof (cases si)
    case None
    with assms(1) s d show ?thesis by (simp add: copy_store_def)
  next
    case (Some ia)
    with assms(1) s d obtain its where st: "stringify_kids f h (Some ia) = Some (Some its)"
      by (auto simp: copy_store_def simp del: stringify_kids.simps parse_kids.simps
               split: option.splits)
    have "stringify_kids f' h (Some ia) = Some (Some its)"
      by (rule stringify_kids_fuel[OF st assms(2)])
    with assms(1) s d Some st show ?thesis
      by (simp add: copy_store_def del: stringify_kids.simps parse_kids.simps)
  qed
qed


end
